theory Spec2Isabelle
  imports Main "HOL-Library.Log_Nat"
begin

section \<open>Python text primitives\<close>

text \<open>
  A Python \<open>str\<close> is a sequence of Unicode code points. A code point is a natural
  number, so that the line boundaries and white space beyond Latin-1 that
  \<open>str.splitlines\<close>, \<open>str.strip\<close> and the \<open>\s\<close> of module \<open>re\<close> know are part of the model.
\<close>

type_synonym pystr = "nat list"

definition py :: "string \<Rightarrow> pystr" where
  "py s = map of_char s"

text \<open>\<open>str.isspace\<close> on one character; the \<open>\s\<close> of \<open>re\<close> on \<open>str\<close> patterns is the same set.\<close>

definition isspace :: "nat \<Rightarrow> bool" where
  "isspace c \<longleftrightarrow>
     (9 \<le> c \<and> c \<le> 13) \<or> (28 \<le> c \<and> c \<le> 32) \<or> c = 133 \<or> c = 160 \<or> c = 5760 \<or>
     (8192 \<le> c \<and> c \<le> 8202) \<or> c = 8232 \<or> c = 8233 \<or> c = 8239 \<or> c = 8287 \<or> c = 12288"

text \<open>The characters \<open>str.splitlines\<close> ends a line at (\<open>\r\n\<close> counts as one boundary).\<close>

definition is_linebreak :: "nat \<Rightarrow> bool" where
  "is_linebreak c \<longleftrightarrow>
     c = 10 \<or> c = 11 \<or> c = 12 \<or> c = 13 \<or> c = 28 \<or> c = 29 \<or> c = 30 \<or> c = 133 \<or>
     c = 8232 \<or> c = 8233"

text \<open>
  \<open>s.splitlines(keepends)\<close>. The head of the recursive result is the rest of the line
  that the current character belongs to.
\<close>

fun splitlines :: "bool \<Rightarrow> pystr \<Rightarrow> pystr list" where
  "splitlines k [] = []"
| "splitlines k [c] = (if is_linebreak c then [if k then [c] else []] else [[c]])"
| "splitlines k (c # d # ds) =
     (if c = 13 \<and> d = 10 then (if k then [13, 10] else []) # splitlines k ds
      else if is_linebreak c then (if k then [c] else []) # splitlines k (d # ds)
      else (case splitlines k (d # ds) of
              [] \<Rightarrow> [[c]]
            | l # ls \<Rightarrow> (c # l) # ls))"

text \<open>\<open>s.lstrip()\<close>, \<open>s.rstrip()\<close>, \<open>s.strip()\<close> and \<open>s.rstrip('\n\r')\<close>.\<close>

definition lstrip :: "pystr \<Rightarrow> pystr" where
  "lstrip s = dropWhile isspace s"

definition rstrip :: "pystr \<Rightarrow> pystr" where
  "rstrip s = rev (dropWhile isspace (rev s))"

definition strip :: "pystr \<Rightarrow> pystr" where
  "strip s = rstrip (lstrip s)"

definition rstrip_nl :: "pystr \<Rightarrow> pystr" where
  "rstrip_nl s = rev (dropWhile (\<lambda>c. c = 10 \<or> c = 13) (rev s))"

text \<open>\<open>str(i)\<close> for an integer, used by the f-strings of the search steps.\<close>

fun digits :: "nat \<Rightarrow> pystr" where
  "digits n = (if n < 10 then [48 + n] else digits (n div 10) @ [48 + n mod 10])"

declare digits.simps [simp del]

definition str_int :: "int \<Rightarrow> pystr" where
  "str_int i = (if i < 0 then 45 # digits (nat (- i)) else digits (nat i))"

section \<open>Regular expressions of the patterns\<close>

text \<open>
  The patterns of the program are sequences of single characters and character classes,
  each taken once, optionally (\<open>?\<close>), any number of times (\<open>*\<close>, \<open>*?\<close>) or at least once
  (\<open>+\<close>). \<open>AnyCh\<close> is \<open>.\<close> under \<open>re.DOTALL\<close>. \<open>pattern.search(s)\<close> is used as a truth
  value only, so greedy and lazy repetition agree.
\<close>

datatype cls = Ch nat | Space | AnyCh

datatype rx = One cls | Opt cls | Star cls | Plus cls

fun cls_ok :: "cls \<Rightarrow> nat \<Rightarrow> bool" where
  "cls_ok (Ch a) c = (c = a)"
| "cls_ok Space c = isspace c"
| "cls_ok AnyCh c = True"

text \<open>\<open>rmatch p s\<close>: some prefix of \<open>s\<close> matches the pattern \<open>p\<close>.\<close>

fun rmatch :: "rx list \<Rightarrow> pystr \<Rightarrow> bool" where
  "rmatch [] s = True"
| "rmatch (One a # r) [] = False"
| "rmatch (One a # r) (c # cs) = (if cls_ok a c then rmatch r cs else False)"
| "rmatch (Opt a # r) [] = rmatch r []"
| "rmatch (Opt a # r) (c # cs) =
     (if rmatch r (c # cs) then True else if cls_ok a c then rmatch r cs else False)"
| "rmatch (Star a # r) [] = rmatch r []"
| "rmatch (Star a # r) (c # cs) =
     (if rmatch r (c # cs) then True
      else if cls_ok a c then rmatch (Star a # r) cs else False)"
| "rmatch (Plus a # r) [] = False"
| "rmatch (Plus a # r) (c # cs) = (if cls_ok a c then rmatch (Star a # r) cs else False)"

text \<open>\<open>bool(pattern.search(s))\<close>: the pattern matches at some position of \<open>s\<close>.\<close>

fun re_search :: "rx list \<Rightarrow> pystr \<Rightarrow> bool" where
  "re_search p [] = rmatch p []"
| "re_search p (c # cs) = (if rmatch p (c # cs) then True else re_search p cs)"

definition lit :: "string \<Rightarrow> rx list" where
  "lit s = map (\<lambda>c. One (Ch (of_char c))) s"

text \<open>The common head \<open>\{\{-?\s*\<close> of the keyword patterns.\<close>

definition open_brace :: "rx list" where
  "open_brace = lit ''{{'' @ [Opt (Ch 45), Star Space]"

section \<open>The block model (parser.py)\<close>

datatype BlockType =
  PLAIN | EXPRESSION | IF | ELSE | ELSE_IF | END | RANGE | WITH | DEFINE | TEMPLATE | INCLUDE
  | COMMENT

record TemplateBlock =
  block_type :: BlockType
  content :: pystr
  start_line :: int
  end_line :: int
  file_path :: "pystr option"
  nesting_level :: int

record ParsedTemplate =
  tpl_file_path :: pystr
  blocks :: "TemplateBlock list"
  original_content :: pystr

definition total_lines :: "ParsedTemplate \<Rightarrow> int" where
  "total_lines t =
     (if original_content t = [] then 0 else int (length (splitlines False (original_content t))))"

text \<open>\<open>TemplateParser.PATTERNS\<close>.\<close>

definition pat_if_start :: "rx list" where
  "pat_if_start = open_brace @ lit ''if'' @ [Plus Space]"

definition pat_else_if :: "rx list" where
  "pat_else_if = open_brace @ lit ''else'' @ [Plus Space] @ lit ''if'' @ [Plus Space]"

definition pat_else :: "rx list" where
  "pat_else = open_brace @ lit ''else'' @ [Star Space, Opt (Ch 45)] @ lit ''}}''"

definition pat_end :: "rx list" where
  "pat_end = open_brace @ lit ''end'' @ [Star Space, Opt (Ch 45)] @ lit ''}}''"

definition pat_range_start :: "rx list" where
  "pat_range_start = open_brace @ lit ''range'' @ [Plus Space]"

definition pat_with_start :: "rx list" where
  "pat_with_start = open_brace @ lit ''with'' @ [Plus Space]"

definition pat_define_start :: "rx list" where
  "pat_define_start = open_brace @ lit ''define'' @ [Plus Space]"

definition pat_template :: "rx list" where
  "pat_template = open_brace @ lit ''template'' @ [Plus Space]"

definition pat_include :: "rx list" where
  "pat_include = open_brace @ lit ''include'' @ [Plus Space]"

definition pat_comment :: "rx list" where
  "pat_comment = lit ''{{/*'' @ [Star AnyCh] @ lit ''*/}}''"

definition pat_expression :: "rx list" where
  "pat_expression = lit ''{{'' @ [Opt (Ch 45), Star AnyCh, Opt (Ch 45)] @ lit ''}}''"

text \<open>\<open>TemplateParser._detect_block_type\<close>.\<close>

definition detect_block_type :: "pystr \<Rightarrow> BlockType" where
  "detect_block_type line =
     (let stripped = strip line in
      if re_search pat_comment stripped then COMMENT
      else if re_search pat_else_if stripped then ELSE_IF
      else if re_search pat_else stripped then ELSE
      else if re_search pat_end stripped then END
      else if re_search pat_if_start stripped then IF
      else if re_search pat_range_start stripped then RANGE
      else if re_search pat_with_start stripped then WITH
      else if re_search pat_define_start stripped then DEFINE
      else if re_search pat_template stripped then TEMPLATE
      else if re_search pat_include stripped then INCLUDE
      else if re_search pat_expression stripped then EXPRESSION
      else PLAIN)"

definition mk_block :: "BlockType \<Rightarrow> pystr \<Rightarrow> int \<Rightarrow> pystr \<Rightarrow> int \<Rightarrow> TemplateBlock" where
  "mk_block bt line current_line fp nesting =
     \<lparr>block_type = bt, content = line, start_line = current_line, end_line = current_line,
      file_path = Some fp, nesting_level = nesting\<rparr>"

text \<open>
  The \<open>while\<close> loop of \<open>TemplateParser._parse_content\<close> over the lines that are left, with
  its variables \<open>current_line\<close>, \<open>nesting_level\<close> and \<open>blocks\<close>.
\<close>

fun parse_loop ::
  "pystr \<Rightarrow> pystr list \<Rightarrow> int \<Rightarrow> int \<Rightarrow> TemplateBlock list \<Rightarrow> TemplateBlock list" where
  "parse_loop fp [] current_line nesting bs = bs"
| "parse_loop fp (line # rest) current_line nesting bs =
     (if strip line = [] then parse_loop fp rest (current_line + 1) nesting bs
      else
        (let bt = detect_block_type line in
         if bt = IF \<or> bt = RANGE \<or> bt = WITH \<or> bt = DEFINE then
           parse_loop fp rest (current_line + 1) (nesting + 1)
             (bs @ [mk_block bt line current_line fp nesting])
         else if bt = END then
           (let nesting' = max 0 (nesting - 1) in
            parse_loop fp rest (current_line + 1) nesting'
              (bs @ [mk_block bt line current_line fp nesting']))
         else if bt = ELSE \<or> bt = ELSE_IF then
           parse_loop fp rest (current_line + 1) nesting
             (bs @ [mk_block bt line current_line fp (max 0 (nesting - 1))])
         else
           parse_loop fp rest (current_line + 1) nesting
             (bs @ [mk_block bt line current_line fp nesting])))"

definition parse_content :: "pystr \<Rightarrow> pystr \<Rightarrow> TemplateBlock list" where
  "parse_content txt fp = parse_loop fp (splitlines True txt) 1 0 []"

text \<open>
  \<open>TemplateParser.parse_file\<close>, given the text that \<open>read_file_content\<close> returned for the
  path.
\<close>

definition parse_file :: "pystr \<Rightarrow> pystr \<Rightarrow> ParsedTemplate" where
  "parse_file fp txt =
     \<lparr>tpl_file_path = fp, blocks = parse_content txt fp, original_content = txt\<rparr>"

section \<open>Python list primitives\<close>

datatype py_error = IndexError

text \<open>\<open>xs[i]\<close>: a negative index counts from the end, an index out of range raises.\<close>

definition py_index :: "'a list \<Rightarrow> int \<Rightarrow> py_error + 'a" where
  "py_index xs i =
     (if 0 \<le> i \<and> i < int (length xs) then Inr (xs ! nat i)
      else if i < 0 \<and> - int (length xs) \<le> i then Inr (xs ! nat (int (length xs) + i))
      else Inl IndexError)"

text \<open>\<open>xs[:e]\<close>: a negative bound counts from the end, and the slice never raises.\<close>

definition py_slice_to :: "'a list \<Rightarrow> int \<Rightarrow> 'a list" where
  "py_slice_to xs e = (if e < 0 then take (nat (int (length xs) + e)) xs else take (nat e) xs)"

text \<open>\<open>range(a, b)\<close>.\<close>

definition py_range :: "int \<Rightarrow> int \<Rightarrow> int list" where
  "py_range a b = [a..b - 1]"

section \<open>The renderer and the block-granularity mutator (executor.py)\<close>

record HelmResult =
  success :: bool
  stdout :: pystr
  stderr :: pystr
  exit_code :: int
  command :: "pystr list"

text \<open>
  The external renderer is a black box. \<open>HelmExecutor.run_template\<close> is given a chart
  directory; of that chart only one template file ever differs between two runs of a
  search, so a chart is identified with the text of that file. The renderer may answer
  differently each time it is asked: its answer is a function of the texts it has rendered
  so far and of the text at hand. The list of rendered texts is the state that every
  operation below passes on, and its length is the number of probes made.
\<close>

type_synonym renderer = "pystr list \<Rightarrow> pystr \<Rightarrow> HelmResult"

definition run_template :: "renderer \<Rightarrow> pystr list \<Rightarrow> pystr \<Rightarrow> HelmResult \<times> pystr list" where
  "run_template orc hist chart = (orc hist chart, hist @ [chart])"

text \<open>The set \<open>included_lines\<close> that \<open>_create_partial_template\<close> builds from the blocks.\<close>

definition included_lines :: "TemplateBlock list \<Rightarrow> int set" where
  "included_lines bs = fold (\<lambda>b S. S \<union> {start_line b..end_line b}) bs {}"

text \<open>
  The loop of \<open>IncrementalExecutor._create_partial_template\<close> over
  \<open>enumerate(original_lines)\<close>, from index \<open>i\<close> on; the result is \<open>new_lines\<close>.
\<close>

fun partial_template_lines :: "int set \<Rightarrow> int \<Rightarrow> pystr list \<Rightarrow> pystr list" where
  "partial_template_lines inc i [] = []"
| "partial_template_lines inc i (line # rest) =
     (let line_num = i + 1 in
      (if line_num \<in> inc then line
       else
         (let stripped = rstrip_nl line in
          if strip stripped \<noteq> [] then py ''{{/* '' @ stripped @ py '' */}}'' @ [10]
          else line))
      # partial_template_lines inc (i + 1) rest)"

text \<open>
  \<open>_create_partial_template\<close>: the text handed to \<open>write_file_content\<close> for the template
  file of the chart copy. (The copy of the chart and the path arithmetic are file-system
  work outside this model.)
\<close>

definition create_partial_template :: "ParsedTemplate \<Rightarrow> TemplateBlock list \<Rightarrow> pystr" where
  "create_partial_template t blocks_to_include =
     concat (partial_template_lines (included_lines blocks_to_include) 0
               (splitlines True (original_content t)))"

definition execute_with_blocks ::
  "renderer \<Rightarrow> pystr list \<Rightarrow> ParsedTemplate \<Rightarrow> TemplateBlock list \<Rightarrow> HelmResult \<times> pystr list" where
  "execute_with_blocks orc hist t blocks_to_include =
     run_template orc hist (create_partial_template t blocks_to_include)"

definition execute_up_to_block ::
  "renderer \<Rightarrow> pystr list \<Rightarrow> ParsedTemplate \<Rightarrow> int \<Rightarrow> HelmResult \<times> pystr list" where
  "execute_up_to_block orc hist t block_index =
     execute_with_blocks orc hist t (py_slice_to (blocks t) (block_index + 1))"

text \<open>
  \<open>validate_full_template\<close> renders the chart as it is on disk: the text the template was
  parsed from.
\<close>

definition validate_full_template ::
  "renderer \<Rightarrow> pystr list \<Rightarrow> ParsedTemplate \<Rightarrow> HelmResult \<times> pystr list" where
  "validate_full_template orc hist t = run_template orc hist (original_content t)"

section \<open>The line-granularity mutator (line\_searcher.py)\<close>

text \<open>\<open>TemplateStructureAnalyzer.CONTROL_PATTERNS\<close>, in the order of the source.\<close>

definition CONTROL_PATTERNS :: "rx list list" where
  "CONTROL_PATTERNS =
     [open_brace @ lit ''if'' @ [One Space],
      open_brace @ lit ''else'' @ [Star Space, Opt (Ch 45)] @ lit ''}}'',
      open_brace @ lit ''else'' @ [Plus Space] @ lit ''if'' @ [One Space],
      open_brace @ lit ''end'' @ [Star Space, Opt (Ch 45)] @ lit ''}}'',
      open_brace @ lit ''range'' @ [One Space],
      open_brace @ lit ''with'' @ [One Space],
      open_brace @ lit ''define'' @ [One Space],
      open_brace @ lit ''template'' @ [One Space],
      open_brace @ lit ''block'' @ [One Space]]"

fun any_pattern :: "rx list list \<Rightarrow> pystr \<Rightarrow> bool" where
  "any_pattern [] line = False"
| "any_pattern (p # ps) line = (if re_search p line then True else any_pattern ps line)"

definition is_control_line :: "pystr \<Rightarrow> bool" where
  "is_control_line line = any_pattern CONTROL_PATTERNS line"

text \<open>\<open>get_structure_map\<close>: the dictionary from line number to \<open>is_control_line\<close>.\<close>

fun structure_loop :: "int \<Rightarrow> pystr list \<Rightarrow> (int \<rightharpoonup> bool) \<Rightarrow> (int \<rightharpoonup> bool)" where
  "structure_loop i [] m = m"
| "structure_loop i (line # rest) m =
     structure_loop (i + 1) rest (m(i + 1 \<mapsto> is_control_line line))"

definition get_structure_map :: "pystr \<Rightarrow> (int \<rightharpoonup> bool)" where
  "get_structure_map txt = structure_loop 0 (splitlines False txt) Map.empty"

text \<open>\<open>d.get(k, False)\<close>.\<close>

definition get_or_False :: "(int \<rightharpoonup> bool) \<Rightarrow> int \<Rightarrow> bool" where
  "get_or_False m k = (case m k of None \<Rightarrow> False | Some b \<Rightarrow> b)"

text \<open>
  The loop of \<open>LineBasedExecutor._create_partial_by_line\<close> over \<open>enumerate(lines)\<close>, from
  index \<open>i\<close> on; the result is \<open>new_lines\<close>.
\<close>

fun partial_by_line_lines :: "(int \<rightharpoonup> bool) \<Rightarrow> int \<Rightarrow> int \<Rightarrow> pystr list \<Rightarrow> pystr list" where
  "partial_by_line_lines smap endl i [] = []"
| "partial_by_line_lines smap endl i (line # rest) =
     (let line_num = i + 1 in
      (if line_num \<le> endl then line
       else if get_or_False smap line_num then line
       else
         (let stripped = rstrip_nl line in
          if strip stripped \<noteq> [] then [10] else line))
      # partial_by_line_lines smap endl (i + 1) rest)"

definition new_lines_by_line :: "ParsedTemplate \<Rightarrow> int \<Rightarrow> pystr list" where
  "new_lines_by_line t endl =
     partial_by_line_lines (get_structure_map (original_content t)) endl 0
       (splitlines True (original_content t))"

definition create_partial_by_line :: "ParsedTemplate \<Rightarrow> int \<Rightarrow> pystr" where
  "create_partial_by_line t endl = concat (new_lines_by_line t endl)"

definition execute_up_to_line ::
  "renderer \<Rightarrow> pystr list \<Rightarrow> ParsedTemplate \<Rightarrow> int \<Rightarrow> HelmResult \<times> pystr list" where
  "execute_up_to_line orc hist t endl = run_template orc hist (create_partial_by_line t endl)"

section \<open>The block-granularity searchers (searcher.py)\<close>

text \<open>
  The searchers are modelled without a progress callback (\<open>progress_callback = None\<close>):
  the callback only reports a step that is already recorded.
\<close>

record SearchStep =
  step_number :: int
  blocks_tested :: pystr
  result :: HelmResult
  block_index :: "int option"

record SearchResult =
  found_error :: bool
  failing_block :: "TemplateBlock option"
  failing_block_index :: "int option"
  last_successful_block_index :: "int option"
  steps :: "SearchStep list"
  error_result :: "HelmResult option"
  template :: "ParsedTemplate option"

text \<open>\<open>SearchStep(step_number=n, blocks_tested=f"0-{i}", result=result, block_index=i)\<close>.\<close>

definition mk_step :: "int \<Rightarrow> int \<Rightarrow> HelmResult \<Rightarrow> SearchStep" where
  "mk_step n i res =
     \<lparr>step_number = n, blocks_tested = py ''0-'' @ str_int i, result = res,
      block_index = Some i\<rparr>"

text \<open>\<open>SearchResult(found_error=False, template=template, steps=steps)\<close>.\<close>

definition no_error_result :: "ParsedTemplate \<Rightarrow> SearchStep list \<Rightarrow> SearchResult" where
  "no_error_result t sts =
     \<lparr>found_error = False, failing_block = None, failing_block_index = None,
      last_successful_block_index = None, steps = sts, error_result = None,
      template = Some t\<rparr>"

text \<open>
  The \<open>while low <= high\<close> loop of \<open>BinarySearcher.search\<close>; it returns the variables
  \<open>last_successful\<close>, \<open>failing_index\<close> and \<open>steps\<close> the code reads after the loop.
\<close>

function binary_loop ::
  "renderer \<Rightarrow> ParsedTemplate \<Rightarrow> int \<Rightarrow> int \<Rightarrow> int \<Rightarrow> int option \<Rightarrow> SearchStep list \<Rightarrow> int
   \<Rightarrow> pystr list \<Rightarrow> int \<times> int option \<times> SearchStep list \<times> pystr list" where
  "binary_loop orc t low high last_successful failing_index sts stepno hist =
     (if low \<le> high then
        (let mid = (low + high) div 2;
             stepno' = stepno + 1
         in case execute_up_to_block orc hist t mid of
              (res, hist') \<Rightarrow>
                (let step = mk_step stepno' mid res;
                     sts' = sts @ [step]
                 in if success res
                    then binary_loop orc t (mid + 1) high mid failing_index sts' stepno' hist'
                    else binary_loop orc t low (mid - 1) last_successful (Some mid) sts' stepno'
                           hist'))
      else (last_successful, failing_index, sts, hist))"
  by pat_completeness auto
termination
  by (relation "measure (\<lambda>(orc, t, low, high, rest). nat (high - low + 1))") auto

declare binary_loop.simps [simp del]

text \<open>\<open>BinarySearcher.search\<close>.\<close>

definition binary_search ::
  "renderer \<Rightarrow> pystr list \<Rightarrow> ParsedTemplate \<Rightarrow> py_error + (SearchResult \<times> pystr list)" where
  "binary_search orc hist t =
     (if blocks t = [] then Inr (no_error_result t [], hist)
      else
        (let total_blocks = int (length (blocks t)) in
         case validate_full_template orc hist t of
           (full_result, hist1) \<Rightarrow>
             if success full_result then Inr (no_error_result t [], hist1)
             else
               (case binary_loop orc t 0 (total_blocks - 1) (- 1) None [] 0 hist1 of
                  (last_successful, failing_index, sts, hist2) \<Rightarrow>
                    (case failing_index of
                       Some fi \<Rightarrow>
                         (case py_index (blocks t) fi of
                            Inl e \<Rightarrow> Inl e
                          | Inr fb \<Rightarrow>
                              (case execute_up_to_block orc hist2 t fi of
                                 (err, hist3) \<Rightarrow>
                                   Inr (\<lparr>found_error = True, failing_block = Some fb,
                                         failing_block_index = Some fi,
                                         last_successful_block_index =
                                           (if last_successful \<ge> 0 then Some last_successful
                                            else None),
                                         steps = sts, error_result = Some err,
                                         template = Some t\<rparr>, hist3)))
                     | None \<Rightarrow> Inr (no_error_result t sts, hist2)))))"

text \<open>
  The \<open>for i in range(start_from, len(blocks))\<close> loop of \<open>StepByStepSearcher.search\<close> over
  the indices that are left, with the statements after the loop as its last case.
\<close>

fun step_loop ::
  "renderer \<Rightarrow> ParsedTemplate \<Rightarrow> int \<Rightarrow> int list \<Rightarrow> int \<Rightarrow> SearchStep list \<Rightarrow> pystr list
   \<Rightarrow> py_error + (SearchResult \<times> pystr list)" where
  "step_loop orc t start_from [] last_successful sts hist =
     Inr (\<lparr>found_error = False, failing_block = None, failing_block_index = None,
           last_successful_block_index = Some (int (length (blocks t)) - 1), steps = sts,
           error_result = None, template = Some t\<rparr>, hist)"
| "step_loop orc t start_from (i # rest) last_successful sts hist =
     (case execute_up_to_block orc hist t i of
        (res, hist') \<Rightarrow>
          (let step = mk_step (i - start_from + 1) i res;
               sts' = sts @ [step]
           in if success res then step_loop orc t start_from rest i sts' hist'
              else
                (case py_index (blocks t) i of
                   Inl e \<Rightarrow> Inl e
                 | Inr fb \<Rightarrow>
                     Inr (\<lparr>found_error = True, failing_block = Some fb,
                           failing_block_index = Some i,
                           last_successful_block_index =
                             (if last_successful \<ge> 0 then Some last_successful else None),
                           steps = sts', error_result = Some res, template = Some t\<rparr>,
                          hist'))))"

text \<open>\<open>StepByStepSearcher.search\<close>.\<close>

definition step_search ::
  "renderer \<Rightarrow> pystr list \<Rightarrow> ParsedTemplate \<Rightarrow> int
   \<Rightarrow> py_error + (SearchResult \<times> pystr list)" where
  "step_search orc hist t start_from =
     (if blocks t = [] then Inr (no_error_result t [], hist)
      else step_loop orc t start_from (py_range start_from (int (length (blocks t)))) (- 1) []
             hist)"

section \<open>The line-granularity searchers (line\_searcher.py)\<close>

record LineSearchStep =
  ls_step_number :: int
  lines_tested :: pystr
  ls_result :: HelmResult
  line_number :: "int option"

record LineSearchResult =
  lr_found_error :: bool
  failing_line :: "int option"
  failing_content :: "pystr option"
  last_successful_line :: "int option"
  lr_steps :: "LineSearchStep list"
  lr_error_result :: "HelmResult option"
  last_successful_result :: "HelmResult option"
  lr_template :: "ParsedTemplate option"
  context_before :: "pystr list"
  context_after :: "pystr list"

text \<open>
  \<open>LineSearchStep(step_number=n, lines_tested=f"1-{i}", result=result, line_number=i)\<close>.
\<close>

definition mk_line_step :: "int \<Rightarrow> int \<Rightarrow> HelmResult \<Rightarrow> LineSearchStep" where
  "mk_line_step n i res =
     \<lparr>ls_step_number = n, lines_tested = py ''1-'' @ str_int i, ls_result = res,
      line_number = Some i\<rparr>"

text \<open>\<open>LineSearchResult(found_error=False, template=template, steps=steps)\<close>.\<close>

definition no_line_error :: "ParsedTemplate \<Rightarrow> LineSearchStep list \<Rightarrow> LineSearchResult" where
  "no_line_error t sts =
     \<lparr>lr_found_error = False, failing_line = None, failing_content = None,
      last_successful_line = None, lr_steps = sts, lr_error_result = None,
      last_successful_result = None, lr_template = Some t, context_before = [],
      context_after = []\<rparr>"

text \<open>
  The two context loops: \<open>for i in range(...)\<close> appending \<open>lines[i]\<close>, the first one under
  the guard \<open>i < len(lines)\<close>.
\<close>

fun context_before_loop :: "pystr list \<Rightarrow> int list \<Rightarrow> pystr list \<Rightarrow> py_error + pystr list" where
  "context_before_loop lines [] acc = Inr acc"
| "context_before_loop lines (i # rest) acc =
     (if i < int (length lines) then
        (case py_index lines i of
           Inl e \<Rightarrow> Inl e
         | Inr l \<Rightarrow> context_before_loop lines rest (acc @ [l]))
      else context_before_loop lines rest acc)"

fun context_after_loop :: "pystr list \<Rightarrow> int list \<Rightarrow> pystr list \<Rightarrow> py_error + pystr list" where
  "context_after_loop lines [] acc = Inr acc"
| "context_after_loop lines (i # rest) acc =
     (case py_index lines i of
        Inl e \<Rightarrow> Inl e
      | Inr l \<Rightarrow> context_after_loop lines rest (acc @ [l]))"

text \<open>
  The statements both line searchers run once a failing line \<open>n\<close> is known: the failing
  line's text and the lines around it.
\<close>

definition line_context ::
  "ParsedTemplate \<Rightarrow> int \<Rightarrow> py_error + (pystr \<times> pystr list \<times> pystr list)" where
  "line_context t n =
     (let lines = splitlines False (original_content t) in
      case (if n \<le> int (length lines) then py_index lines (n - 1) else Inr []) of
        Inl e \<Rightarrow> Inl e
      | Inr fc \<Rightarrow>
          (case context_before_loop lines (py_range (max 0 (n - 4)) (n - 1)) [] of
             Inl e \<Rightarrow> Inl e
           | Inr before \<Rightarrow>
               (case context_after_loop lines
                       (py_range n (min (int (length lines)) (n + 3))) [] of
                  Inl e \<Rightarrow> Inl e
                | Inr after \<Rightarrow> Inr (fc, before, after))))"

text \<open>The \<open>while low <= high\<close> loop of \<open>LineBinarySearcher.search\<close>.\<close>

function line_binary_loop ::
  "renderer \<Rightarrow> ParsedTemplate \<Rightarrow> int \<Rightarrow> int \<Rightarrow> int \<Rightarrow> int option \<Rightarrow> HelmResult option
   \<Rightarrow> LineSearchStep list \<Rightarrow> int \<Rightarrow> pystr list
   \<Rightarrow> int \<times> int option \<times> HelmResult option \<times> LineSearchStep list \<times> pystr list" where
  "line_binary_loop orc t low high last_successful failing last_res sts stepno hist =
     (if low \<le> high then
        (let mid = (low + high) div 2;
             stepno' = stepno + 1
         in case execute_up_to_line orc hist t mid of
              (res, hist') \<Rightarrow>
                (let step = mk_line_step stepno' mid res;
                     sts' = sts @ [step]
                 in if success res
                    then line_binary_loop orc t (mid + 1) high mid failing (Some res) sts'
                           stepno' hist'
                    else line_binary_loop orc t low (mid - 1) last_successful (Some mid) last_res
                           sts' stepno' hist'))
      else (last_successful, failing, last_res, sts, hist))"
  by pat_completeness auto
termination
  by (relation "measure (\<lambda>(orc, t, low, high, rest). nat (high - low + 1))") auto

declare line_binary_loop.simps [simp del]

text \<open>\<open>LineBinarySearcher.search\<close>.\<close>

definition line_binary_search ::
  "renderer \<Rightarrow> pystr list \<Rightarrow> ParsedTemplate \<Rightarrow> py_error + (LineSearchResult \<times> pystr list)" where
  "line_binary_search orc hist t =
     (if total_lines t = 0 then Inr (no_line_error t [], hist)
      else
        (case line_binary_loop orc t 1 (total_lines t) 0 None None [] 0 hist of
           (last_successful, failing, last_res, sts, hist1) \<Rightarrow>
             (case failing of
                Some fl \<Rightarrow>
                  (case line_context t fl of
                     Inl e \<Rightarrow> Inl e
                   | Inr (fc, before, after) \<Rightarrow>
                       (case execute_up_to_line orc hist1 t fl of
                          (err, hist2) \<Rightarrow>
                            Inr (\<lparr>lr_found_error = True, failing_line = Some fl,
                                  failing_content = Some fc,
                                  last_successful_line =
                                    (if last_successful > 0 then Some last_successful else None),
                                  lr_steps = sts, lr_error_result = Some err,
                                  last_successful_result = last_res, lr_template = Some t,
                                  context_before = before, context_after = after\<rparr>, hist2)))
              | None \<Rightarrow> Inr (no_line_error t sts, hist1))))"

text \<open>
  The \<open>for line_num in range(start_line, total_lines + 1)\<close> loop of
  \<open>LineStepByStepSearcher.search\<close> over the line numbers that are left, with the statements
  after the loop as its last case.
\<close>

fun line_step_loop ::
  "renderer \<Rightarrow> ParsedTemplate \<Rightarrow> int \<Rightarrow> int list \<Rightarrow> int \<Rightarrow> HelmResult option
   \<Rightarrow> LineSearchStep list \<Rightarrow> pystr list \<Rightarrow> py_error + (LineSearchResult \<times> pystr list)" where
  "line_step_loop orc t start [] last_successful last_res sts hist =
     Inr (\<lparr>lr_found_error = False, failing_line = None, failing_content = None,
           last_successful_line = Some (total_lines t), lr_steps = sts, lr_error_result = None,
           last_successful_result = None, lr_template = Some t, context_before = [],
           context_after = []\<rparr>, hist)"
| "line_step_loop orc t start (n # rest) last_successful last_res sts hist =
     (case execute_up_to_line orc hist t n of
        (res, hist') \<Rightarrow>
          (let step = mk_line_step (n - start + 1) n res;
               sts' = sts @ [step]
           in if success res then line_step_loop orc t start rest n (Some res) sts' hist'
              else
                (case line_context t n of
                   Inl e \<Rightarrow> Inl e
                 | Inr (fc, before, after) \<Rightarrow>
                     Inr (\<lparr>lr_found_error = True, failing_line = Some n,
                           failing_content = Some fc,
                           last_successful_line =
                             (if last_successful > 0 then Some last_successful else None),
                           lr_steps = sts', lr_error_result = Some res,
                           last_successful_result = last_res, lr_template = Some t,
                           context_before = before, context_after = after\<rparr>, hist'))))"

text \<open>\<open>LineStepByStepSearcher.search\<close>.\<close>

definition line_step_search ::
  "renderer \<Rightarrow> pystr list \<Rightarrow> ParsedTemplate \<Rightarrow> int
   \<Rightarrow> py_error + (LineSearchResult \<times> pystr list)" where
  "line_step_search orc hist t start =
     (if total_lines t = 0 then Inr (no_line_error t [], hist)
      else line_step_loop orc t start (py_range start (total_lines t + 1)) 0 None [] hist)"

section \<open>The specification's reading of the block model\<close>

text \<open>
  The classification as the specification words it: an ordered table of patterns, of which
  the first that matches the stripped line wins, and plain content when none does.
\<close>

definition precedence :: "(rx list \<times> BlockType) list" where
  "precedence =
     [(pat_comment, COMMENT), (pat_else_if, ELSE_IF), (pat_else, ELSE), (pat_end, END),
      (pat_if_start, IF), (pat_range_start, RANGE), (pat_with_start, WITH),
      (pat_define_start, DEFINE), (pat_template, TEMPLATE), (pat_include, INCLUDE),
      (pat_expression, EXPRESSION)]"

fun first_match :: "(rx list \<times> BlockType) list \<Rightarrow> pystr \<Rightarrow> BlockType" where
  "first_match [] s = PLAIN"
| "first_match ((p, k) # rest) s = (if re_search p s then k else first_match rest s)"

definition spec_classify :: "pystr \<Rightarrow> BlockType" where
  "spec_classify line = first_match precedence (strip line)"

text \<open>Control-open, control-close and continuation kinds.\<close>

definition is_open :: "BlockType \<Rightarrow> bool" where
  "is_open bt \<longleftrightarrow> bt = IF \<or> bt = RANGE \<or> bt = WITH \<or> bt = DEFINE"

definition is_close :: "BlockType \<Rightarrow> bool" where
  "is_close bt \<longleftrightarrow> bt = END"

definition is_continuation :: "BlockType \<Rightarrow> bool" where
  "is_continuation bt \<longleftrightarrow> bt = ELSE \<or> bt = ELSE_IF"

text \<open>
  The invariant of the specification reads the depth off two counts: the control-open
  units minus the control-close units of a prefix, clamped at zero.
\<close>

definition clamped_balance :: "TemplateBlock list \<Rightarrow> int" where
  "clamped_balance bs =
     max 0 (int (length (filter (\<lambda>b. is_open (block_type b)) bs)) -
            int (length (filter (\<lambda>b. is_close (block_type b)) bs)))"

text \<open>
  The running depth: it starts at 0, goes up by one after a control-open unit and down by
  one, but not below zero, at a control-close unit.
\<close>

definition depth_step :: "BlockType \<Rightarrow> int \<Rightarrow> int" where
  "depth_step bt n = (if is_open bt then n + 1 else if is_close bt then max 0 (n - 1) else n)"

definition running_depth :: "TemplateBlock list \<Rightarrow> int" where
  "running_depth bs = fold (\<lambda>b n. depth_step (block_type b) n) bs 0"

text \<open>
  The level a unit of kind \<open>bt\<close> records when the running depth before it is \<open>d\<close>: a
  control-close and a continuation record one less (not below zero), every other unit
  records \<open>d\<close>.
\<close>

definition expected_level :: "BlockType \<Rightarrow> int \<Rightarrow> int" where
  "expected_level bt d = (if is_close bt \<or> is_continuation bt then max 0 (d - 1) else d)"

section \<open>The specification's reading of the line-cutoff reduction\<close>

text \<open>
  The original document restricted to the lines \<open>1..N\<close>, plus all the control lines
  beyond the cutoff \<open>N\<close>: the lines the line-cutoff reduction is to keep as they are.
\<close>

definition kept_lines :: "ParsedTemplate \<Rightarrow> int \<Rightarrow> pystr list" where
  "kept_lines t N =
     map (\<lambda>i. splitlines True (original_content t) ! i)
       (filter (\<lambda>i. int i + 1 \<le> N \<or> is_control_line (splitlines False (original_content t) ! i))
          [0..<length (splitlines True (original_content t))])"

text \<open>The control-open and the control-close lines of a list of lines, counted.\<close>

definition count_open :: "pystr list \<Rightarrow> nat" where
  "count_open ls = length (filter (\<lambda>l. is_open (detect_block_type l)) ls)"

definition count_close :: "pystr list \<Rightarrow> nat" where
  "count_close ls = length (filter (\<lambda>l. is_close (detect_block_type l)) ls)"

section \<open>The texts a search renders\<close>

text \<open>
  The text that \<open>execute_up_to_block\<close> hands to the renderer for the cutoff \<open>m\<close>; for
  \<open>execute_up_to_line\<close> it is \<open>create_partial_by_line t m\<close>.
\<close>

definition block_probe :: "ParsedTemplate \<Rightarrow> int \<Rightarrow> pystr" where
  "block_probe t m = create_partial_template t (py_slice_to (blocks t) (m + 1))"

section \<open>A sample document and three renderers\<close>

text \<open>
  A three-line document whose second line the first renderer rejects whenever it is
  rendered verbatim, and a renderer that accepts every text.
\<close>

definition demo_text :: pystr where
  "demo_text = py ''a: 1'' @ [10] @ py ''bad'' @ [10] @ py ''c: 3'' @ [10]"

definition demo_template :: ParsedTemplate where
  "demo_template = parse_file (py ''t.yaml'') demo_text"

definition demo_renderer :: renderer where
  "demo_renderer hist txt =
     (let bad = py ''bad'' @ [10] \<in> set (splitlines True txt) in
      \<lparr>success = \<not> bad, stdout = [], stderr = (if bad then py ''Error'' else []),
       exit_code = (if bad then 1 else 0), command = []\<rparr>)"

definition ok_renderer :: renderer where
  "ok_renderer hist txt =
     \<lparr>success = True, stdout = txt, stderr = [], exit_code = 0, command = []\<rparr>"

text \<open>A renderer that accepts the sample document as it is and no other text.\<close>

definition full_only_renderer :: renderer where
  "full_only_renderer hist txt =
     \<lparr>success = (txt = demo_text), stdout = [],
      stderr = (if txt = demo_text then [] else py ''Error''),
      exit_code = (if txt = demo_text then 0 else 1), command = []\<rparr>"

text \<open>A document that opens a conditional and closes it on the next line.\<close>

definition if_end_text :: pystr where
  "if_end_text = py ''{{ if .X }}'' @ [10] @ py ''{{ end }}'' @ [10]"

definition if_end_blocks :: "TemplateBlock list" where
  "if_end_blocks = parse_content if_end_text (py ''t.yaml'')"

text \<open>
  A document with a cross-reference (\<open>include\<close>) on line 2 and a control-close on line 3,
  and a document of twenty lines whose only control line is an unmatched control-close on
  line 20.
\<close>

definition include_text :: pystr where
  "include_text = py ''a: 1'' @ [10] @ py ''{{ include tpl . }}'' @ [10] @ py ''{{ end }}'' @ [10]"

definition include_template :: ParsedTemplate where
  "include_template = parse_file (py ''t.yaml'') include_text"

definition unmatched_end_text :: pystr where
  "unmatched_end_text = concat (replicate 19 (py ''k: v'' @ [10])) @ py ''{{ end }}'' @ [10]"

definition unmatched_end_template :: ParsedTemplate where
  "unmatched_end_template = parse_file (py ''t.yaml'') unmatched_end_text"

section \<open>Properties of the bisection loops\<close>

lemma halving_bound:
  fixes low high mid :: int
  assumes "low \<le> high" and "mid = (low + high) div 2"
  shows "floorlog 2 (nat (high - (mid + 1) + 1)) + 1 \<le> floorlog 2 (nat (high - low + 1))"
    and "floorlog 2 (nat (mid - 1 - low + 1)) + 1 \<le> floorlog 2 (nat (high - low + 1))"
proof -
  define s where "s = nat (high - low + 1)"
  have s: "0 < s" using assms(1) by (simp add: s_def)
  have fl: "floorlog 2 s = floorlog 2 (s div 2) + 1"
    using s by (subst compute_floorlog) simp
  have "nat (high - (mid + 1) + 1) \<le> s div 2" "nat (mid - 1 - low + 1) \<le> s div 2"
    unfolding s_def assms(2) using assms(1) by linarith+
  then have "floorlog 2 (nat (high - (mid + 1) + 1)) \<le> floorlog 2 (s div 2)"
    "floorlog 2 (nat (mid - 1 - low + 1)) \<le> floorlog 2 (s div 2)"
    by (simp_all add: floorlog_mono)
  then show "floorlog 2 (nat (high - (mid + 1) + 1)) + 1 \<le> floorlog 2 (nat (high - low + 1))"
    and "floorlog 2 (nat (mid - 1 - low + 1)) + 1 \<le> floorlog 2 (nat (high - low + 1))"
    using fl by (simp_all add: s_def)
qed

lemma binary_loop_done:
  "\<not> low \<le> high \<Longrightarrow> binary_loop orc t low high lst fl sts sn hist = (lst, fl, sts, hist)"
  by (simp add: binary_loop.simps [of orc t low high])

lemma binary_loop_pass:
  "low \<le> high \<Longrightarrow> execute_up_to_block orc hist t ((low + high) div 2) = (res, h) \<Longrightarrow>
   success res \<Longrightarrow>
   binary_loop orc t low high lst fl sts sn hist =
   binary_loop orc t ((low + high) div 2 + 1) high ((low + high) div 2) fl
     (sts @ [mk_step (sn + 1) ((low + high) div 2) res]) (sn + 1) h"
  by (simp add: binary_loop.simps [of orc t low high] Let_def mk_step_def)

lemma binary_loop_fail:
  "low \<le> high \<Longrightarrow> execute_up_to_block orc hist t ((low + high) div 2) = (res, h) \<Longrightarrow>
   \<not> success res \<Longrightarrow>
   binary_loop orc t low high lst fl sts sn hist =
   binary_loop orc t low ((low + high) div 2 - 1) lst (Some ((low + high) div 2))
     (sts @ [mk_step (sn + 1) ((low + high) div 2) res]) (sn + 1) h"
  by (simp add: binary_loop.simps [of orc t low high] Let_def mk_step_def)

lemma binary_loop_adjacent:
  "binary_loop orc t low high lst fl sts sn hist = (lst', fl', sts', hist') \<Longrightarrow>
   low \<le> high + 1 \<Longrightarrow> lst = low - 1 \<Longrightarrow> (\<forall>f. fl = Some f \<longrightarrow> f = high + 1) \<Longrightarrow>
   (\<forall>f. fl' = Some f \<longrightarrow> f = lst' + 1)"
proof (induction "nat (high - low + 1)" arbitrary: low high lst fl sts sn hist rule: less_induct)
  case less
  show ?case
  proof (cases "low \<le> high")
    case False
    have "(lst, fl, sts, hist) = (lst', fl', sts', hist')"
      using less.prems(1) by (simp only: binary_loop_done [OF False])
    moreover have "low = high + 1" using False less.prems(2) by linarith
    ultimately show ?thesis using less.prems(3,4) by simp
  next
    case True
    define mid where "mid = (low + high) div 2"
    obtain res h where ex: "execute_up_to_block orc hist t ((low + high) div 2) = (res, h)"
      by (cases "execute_up_to_block orc hist t ((low + high) div 2)")
    show ?thesis
    proof (cases "success res")
      case pass: True
      have m: "nat (high - (mid + 1) + 1) < nat (high - low + 1)"
        unfolding mid_def using True by linarith
      have b: "mid + 1 \<le> high + 1" unfolding mid_def using True by linarith
      have eq: "binary_loop orc t (mid + 1) high mid fl (sts @ [mk_step (sn + 1) mid res])
                  (sn + 1) h = (lst', fl', sts', hist')"
        using less.prems(1) binary_loop_pass [OF True ex pass, of lst fl sts sn]
        by (simp add: mid_def)
      show ?thesis
        by (rule less.hyps [OF m eq b]) (use less.prems(4) in simp_all)
    next
      case nopass: False
      have m: "nat (mid - 1 - low + 1) < nat (high - low + 1)"
        unfolding mid_def using True by linarith
      have b: "low \<le> mid - 1 + 1" unfolding mid_def using True by linarith
      have eq: "binary_loop orc t low (mid - 1) lst (Some mid) (sts @ [mk_step (sn + 1) mid res])
                  (sn + 1) h = (lst', fl', sts', hist')"
        using less.prems(1) binary_loop_fail [OF True ex nopass, of lst fl sts sn]
        by (simp add: mid_def)
      show ?thesis
        by (rule less.hyps [OF m eq b]) (use less.prems(3) in simp_all)
    qed
  qed
qed


lemma binary_loop_monotone:
  "binary_loop orc t low high lst fl sts sn hist = (lst', fl', sts', hist') \<Longrightarrow>
   (\<And>h m. low \<le> m \<Longrightarrow> m \<le> high \<Longrightarrow>
      success (fst (execute_up_to_block orc h t m)) = (m < k)) \<Longrightarrow>
   low \<le> k \<Longrightarrow> k \<le> high + 1 \<Longrightarrow> (k = high + 1 \<Longrightarrow> fl = Some k) \<Longrightarrow> lst = low - 1 \<Longrightarrow>
   fl' = Some k \<and> lst' = k - 1"
proof (induction "nat (high - low + 1)" arbitrary: low high lst fl sts sn hist rule: less_induct)
  case less
  show ?case
  proof (cases "low \<le> high")
    case False
    have e: "lst' = lst" "fl' = fl"
      using less.prems(1) by (simp_all only: binary_loop_done [OF False] prod.inject)
    have k: "k = high + 1" "low = k" using False less.prems(3,4) by linarith+
    show ?thesis using less.prems(5) [OF k(1)] less.prems(6) k(2) by (simp add: e)
  next
    case True
    define mid where "mid = (low + high) div 2"
    have mid: "low \<le> mid" "mid \<le> high" unfolding mid_def using True by linarith+
    obtain res h where ex: "execute_up_to_block orc hist t ((low + high) div 2) = (res, h)"
      by (cases "execute_up_to_block orc hist t ((low + high) div 2)")
    have res: "success res = (mid < k)"
      using less.prems(2) [OF mid, of hist] ex by (simp add: mid_def)
    show ?thesis
    proof (cases "success res")
      case pass: True
      have m: "nat (high - (mid + 1) + 1) < nat (high - low + 1)" using mid by linarith
      have eq: "binary_loop orc t (mid + 1) high mid fl (sts @ [mk_step (sn + 1) mid res])
                  (sn + 1) h = (lst', fl', sts', hist')"
        using less.prems(1) binary_loop_pass [OF True ex pass, of lst fl sts sn]
        by (simp add: mid_def)
      show ?thesis
      proof (rule less.hyps [OF m eq])
        show "success (fst (execute_up_to_block orc h' t m')) = (m' < k)"
          if "mid + 1 \<le> m'" "m' \<le> high" for h' m'
          using that mid less.prems(2) [of m' h'] by simp
        show "mid + 1 \<le> k" using pass res by simp
        show "k \<le> high + 1" by (rule less.prems(4))
        show "fl = Some k" if "k = high + 1" using that less.prems(5) by simp
        show "mid = mid + 1 - 1" by simp
      qed
    next
      case nopass: False
      have m: "nat (mid - 1 - low + 1) < nat (high - low + 1)" using mid by linarith
      have eq: "binary_loop orc t low (mid - 1) lst (Some mid) (sts @ [mk_step (sn + 1) mid res])
                  (sn + 1) h = (lst', fl', sts', hist')"
        using less.prems(1) binary_loop_fail [OF True ex nopass, of lst fl sts sn]
        by (simp add: mid_def)
      show ?thesis
      proof (rule less.hyps [OF m eq])
        show "success (fst (execute_up_to_block orc h' t m')) = (m' < k)"
          if "low \<le> m'" "m' \<le> mid - 1" for h' m'
          using that mid less.prems(2) [of m' h'] by simp
        show "low \<le> k" by (rule less.prems(3))
        show "k \<le> mid - 1 + 1" using nopass res by simp
        show "Some mid = Some k" if "k = mid - 1 + 1" using that by simp
        show "lst = low - 1" by (rule less.prems(6))
      qed
    qed
  qed
qed

lemma binary_loop_steps:
  "binary_loop orc t low high lst fl sts sn hist = (lst', fl', sts', hist') \<Longrightarrow>
   \<exists>n. length sts' = length sts + n \<and> length hist' = length hist + n \<and>
       n \<le> floorlog 2 (nat (high - low + 1))"
proof (induction "nat (high - low + 1)" arbitrary: low high lst fl sts sn hist rule: less_induct)
  case less
  show ?case
  proof (cases "low \<le> high")
    case False
    have "sts' = sts" "hist' = hist"
      using less.prems(1) by (simp_all only: binary_loop_done [OF False] prod.inject)
    then show ?thesis by simp
  next
    case True
    define mid where "mid = (low + high) div 2"
    have mid: "low \<le> mid" "mid \<le> high" unfolding mid_def using True by linarith+
    obtain res h where ex: "execute_up_to_block orc hist t ((low + high) div 2) = (res, h)"
      by (cases "execute_up_to_block orc hist t ((low + high) div 2)")
    have h: "length h = length hist + 1"
      using ex by (auto simp: execute_up_to_block_def execute_with_blocks_def run_template_def)
    show ?thesis
    proof (cases "success res")
      case pass: True
      have m: "nat (high - (mid + 1) + 1) < nat (high - low + 1)" using mid by linarith
      have eq: "binary_loop orc t (mid + 1) high mid fl (sts @ [mk_step (sn + 1) mid res])
                  (sn + 1) h = (lst', fl', sts', hist')"
        using less.prems(1) binary_loop_pass [OF True ex pass, of lst fl sts sn]
        by (simp add: mid_def)
      from less.hyps [OF m eq] obtain n where
        n: "length sts' = length (sts @ [mk_step (sn + 1) mid res]) + n"
           "length hist' = length h + n" "n \<le> floorlog 2 (nat (high - (mid + 1) + 1))"
        by blast
      show ?thesis
        using n halving_bound(1) [OF True mid_def] h
        by (intro exI [of _ "n + 1"]) simp
    next
      case nopass: False
      have m: "nat (mid - 1 - low + 1) < nat (high - low + 1)" using mid by linarith
      have eq: "binary_loop orc t low (mid - 1) lst (Some mid) (sts @ [mk_step (sn + 1) mid res])
                  (sn + 1) h = (lst', fl', sts', hist')"
        using less.prems(1) binary_loop_fail [OF True ex nopass, of lst fl sts sn]
        by (simp add: mid_def)
      from less.hyps [OF m eq] obtain n where
        n: "length sts' = length (sts @ [mk_step (sn + 1) mid res]) + n"
           "length hist' = length h + n" "n \<le> floorlog 2 (nat (mid - 1 - low + 1))"
        by blast
      show ?thesis
        using n halving_bound(2) [OF True mid_def] h
        by (intro exI [of _ "n + 1"]) simp
    qed
  qed
qed

lemma line_binary_loop_done:
  "\<not> low \<le> high \<Longrightarrow> line_binary_loop orc t low high lst fl lr sts sn hist = (lst, fl, lr, sts, hist)"
  by (simp add: line_binary_loop.simps [of orc t low high])

lemma line_binary_loop_pass:
  "low \<le> high \<Longrightarrow> execute_up_to_line orc hist t ((low + high) div 2) = (res, h) \<Longrightarrow>
   success res \<Longrightarrow>
   line_binary_loop orc t low high lst fl lr sts sn hist =
   line_binary_loop orc t ((low + high) div 2 + 1) high ((low + high) div 2) fl (Some res)
     (sts @ [mk_line_step (sn + 1) ((low + high) div 2) res]) (sn + 1) h"
  by (simp add: line_binary_loop.simps [of orc t low high] Let_def mk_line_step_def)

lemma line_binary_loop_fail:
  "low \<le> high \<Longrightarrow> execute_up_to_line orc hist t ((low + high) div 2) = (res, h) \<Longrightarrow>
   \<not> success res \<Longrightarrow>
   line_binary_loop orc t low high lst fl lr sts sn hist =
   line_binary_loop orc t low ((low + high) div 2 - 1) lst (Some ((low + high) div 2)) lr
     (sts @ [mk_line_step (sn + 1) ((low + high) div 2) res]) (sn + 1) h"
  by (simp add: line_binary_loop.simps [of orc t low high] Let_def mk_line_step_def)

lemma line_binary_loop_adjacent:
  "line_binary_loop orc t low high lst fl lr sts sn hist = (lst', fl', lr', sts', hist') \<Longrightarrow>
   low \<le> high + 1 \<Longrightarrow> lst = low - 1 \<Longrightarrow> (\<forall>f. fl = Some f \<longrightarrow> f = high + 1) \<Longrightarrow>
   (\<forall>f. fl' = Some f \<longrightarrow> f = lst' + 1)"
proof (induction "nat (high - low + 1)" arbitrary: low high lst fl lr sts sn hist rule: less_induct)
  case less
  show ?case
  proof (cases "low \<le> high")
    case False
    have "(lst, fl, lr, sts, hist) = (lst', fl', lr', sts', hist')"
      using less.prems(1) by (simp only: line_binary_loop_done [OF False])
    moreover have "low = high + 1" using False less.prems(2) by linarith
    ultimately show ?thesis using less.prems(3,4) by simp
  next
    case True
    define mid where "mid = (low + high) div 2"
    obtain res h where ex: "execute_up_to_line orc hist t ((low + high) div 2) = (res, h)"
      by (cases "execute_up_to_line orc hist t ((low + high) div 2)")
    show ?thesis
    proof (cases "success res")
      case pass: True
      have m: "nat (high - (mid + 1) + 1) < nat (high - low + 1)"
        unfolding mid_def using True by linarith
      have b: "mid + 1 \<le> high + 1" unfolding mid_def using True by linarith
      have eq: "line_binary_loop orc t (mid + 1) high mid fl (Some res) (sts @ [mk_line_step (sn + 1) mid res])
                  (sn + 1) h = (lst', fl', lr', sts', hist')"
        using less.prems(1) line_binary_loop_pass [OF True ex pass, of lst fl lr sts sn]
        by (simp add: mid_def)
      show ?thesis
        by (rule less.hyps [OF m eq b]) (use less.prems(4) in simp_all)
    next
      case nopass: False
      have m: "nat (mid - 1 - low + 1) < nat (high - low + 1)"
        unfolding mid_def using True by linarith
      have b: "low \<le> mid - 1 + 1" unfolding mid_def using True by linarith
      have eq: "line_binary_loop orc t low (mid - 1) lst (Some mid) lr (sts @ [mk_line_step (sn + 1) mid res])
                  (sn + 1) h = (lst', fl', lr', sts', hist')"
        using less.prems(1) line_binary_loop_fail [OF True ex nopass, of lst fl lr sts sn]
        by (simp add: mid_def)
      show ?thesis
        by (rule less.hyps [OF m eq b]) (use less.prems(3) in simp_all)
    qed
  qed
qed


lemma line_binary_loop_monotone:
  "line_binary_loop orc t low high lst fl lr sts sn hist = (lst', fl', lr', sts', hist') \<Longrightarrow>
   (\<And>h m. low \<le> m \<Longrightarrow> m \<le> high \<Longrightarrow>
      success (fst (execute_up_to_line orc h t m)) = (m < k)) \<Longrightarrow>
   low \<le> k \<Longrightarrow> k \<le> high + 1 \<Longrightarrow> (k = high + 1 \<Longrightarrow> fl = Some k) \<Longrightarrow> lst = low - 1 \<Longrightarrow>
   fl' = Some k \<and> lst' = k - 1"
proof (induction "nat (high - low + 1)" arbitrary: low high lst fl lr sts sn hist rule: less_induct)
  case less
  show ?case
  proof (cases "low \<le> high")
    case False
    have e: "lst' = lst" "fl' = fl"
      using less.prems(1) by (simp_all only: line_binary_loop_done [OF False] prod.inject)
    have k: "k = high + 1" "low = k" using False less.prems(3,4) by linarith+
    show ?thesis using less.prems(5) [OF k(1)] less.prems(6) k(2) by (simp add: e)
  next
    case True
    define mid where "mid = (low + high) div 2"
    have mid: "low \<le> mid" "mid \<le> high" unfolding mid_def using True by linarith+
    obtain res h where ex: "execute_up_to_line orc hist t ((low + high) div 2) = (res, h)"
      by (cases "execute_up_to_line orc hist t ((low + high) div 2)")
    have res: "success res = (mid < k)"
      using less.prems(2) [OF mid, of hist] ex by (simp add: mid_def)
    show ?thesis
    proof (cases "success res")
      case pass: True
      have m: "nat (high - (mid + 1) + 1) < nat (high - low + 1)" using mid by linarith
      have eq: "line_binary_loop orc t (mid + 1) high mid fl (Some res) (sts @ [mk_line_step (sn + 1) mid res])
                  (sn + 1) h = (lst', fl', lr', sts', hist')"
        using less.prems(1) line_binary_loop_pass [OF True ex pass, of lst fl lr sts sn]
        by (simp add: mid_def)
      show ?thesis
      proof (rule less.hyps [OF m eq])
        show "success (fst (execute_up_to_line orc h' t m')) = (m' < k)"
          if "mid + 1 \<le> m'" "m' \<le> high" for h' m'
          using that mid less.prems(2) [of m' h'] by simp
        show "mid + 1 \<le> k" using pass res by simp
        show "k \<le> high + 1" by (rule less.prems(4))
        show "fl = Some k" if "k = high + 1" using that less.prems(5) by simp
        show "mid = mid + 1 - 1" by simp
      qed
    next
      case nopass: False
      have m: "nat (mid - 1 - low + 1) < nat (high - low + 1)" using mid by linarith
      have eq: "line_binary_loop orc t low (mid - 1) lst (Some mid) lr (sts @ [mk_line_step (sn + 1) mid res])
                  (sn + 1) h = (lst', fl', lr', sts', hist')"
        using less.prems(1) line_binary_loop_fail [OF True ex nopass, of lst fl lr sts sn]
        by (simp add: mid_def)
      show ?thesis
      proof (rule less.hyps [OF m eq])
        show "success (fst (execute_up_to_line orc h' t m')) = (m' < k)"
          if "low \<le> m'" "m' \<le> mid - 1" for h' m'
          using that mid less.prems(2) [of m' h'] by simp
        show "low \<le> k" by (rule less.prems(3))
        show "k \<le> mid - 1 + 1" using nopass res by simp
        show "Some mid = Some k" if "k = mid - 1 + 1" using that by simp
        show "lst = low - 1" by (rule less.prems(6))
      qed
    qed
  qed
qed

lemma line_binary_loop_steps:
  "line_binary_loop orc t low high lst fl lr sts sn hist = (lst', fl', lr', sts', hist') \<Longrightarrow>
   \<exists>n. length sts' = length sts + n \<and> length hist' = length hist + n \<and>
       n \<le> floorlog 2 (nat (high - low + 1))"
proof (induction "nat (high - low + 1)" arbitrary: low high lst fl lr sts sn hist rule: less_induct)
  case less
  show ?case
  proof (cases "low \<le> high")
    case False
    have "sts' = sts" "hist' = hist"
      using less.prems(1) by (simp_all only: line_binary_loop_done [OF False] prod.inject)
    then show ?thesis by simp
  next
    case True
    define mid where "mid = (low + high) div 2"
    have mid: "low \<le> mid" "mid \<le> high" unfolding mid_def using True by linarith+
    obtain res h where ex: "execute_up_to_line orc hist t ((low + high) div 2) = (res, h)"
      by (cases "execute_up_to_line orc hist t ((low + high) div 2)")
    have h: "length h = length hist + 1"
      using ex by (auto simp: execute_up_to_line_def run_template_def)
    show ?thesis
    proof (cases "success res")
      case pass: True
      have m: "nat (high - (mid + 1) + 1) < nat (high - low + 1)" using mid by linarith
      have eq: "line_binary_loop orc t (mid + 1) high mid fl (Some res) (sts @ [mk_line_step (sn + 1) mid res])
                  (sn + 1) h = (lst', fl', lr', sts', hist')"
        using less.prems(1) line_binary_loop_pass [OF True ex pass, of lst fl lr sts sn]
        by (simp add: mid_def)
      from less.hyps [OF m eq] obtain n where
        n: "length sts' = length (sts @ [mk_line_step (sn + 1) mid res]) + n"
           "length hist' = length h + n" "n \<le> floorlog 2 (nat (high - (mid + 1) + 1))"
        by blast
      show ?thesis
        using n halving_bound(1) [OF True mid_def] h
        by (intro exI [of _ "n + 1"]) simp
    next
      case nopass: False
      have m: "nat (mid - 1 - low + 1) < nat (high - low + 1)" using mid by linarith
      have eq: "line_binary_loop orc t low (mid - 1) lst (Some mid) lr (sts @ [mk_line_step (sn + 1) mid res])
                  (sn + 1) h = (lst', fl', lr', sts', hist')"
        using less.prems(1) line_binary_loop_fail [OF True ex nopass, of lst fl lr sts sn]
        by (simp add: mid_def)
      from less.hyps [OF m eq] obtain n where
        n: "length sts' = length (sts @ [mk_line_step (sn + 1) mid res]) + n"
           "length hist' = length h + n" "n \<le> floorlog 2 (nat (mid - 1 - low + 1))"
        by blast
      show ?thesis
        using n halving_bound(2) [OF True mid_def] h
        by (intro exI [of _ "n + 1"]) simp
    qed
  qed
qed

section \<open>Properties of the searchers\<close>


lemma splitlines_Nil_iff: "splitlines k s = [] \<longleftrightarrow> s = []"
  by (induction k s rule: splitlines.induct) (auto split: list.splits)

lemma total_lines_eq: "total_lines t = int (length (splitlines False (original_content t)))"
  by (simp add: total_lines_def)

lemma py_index_in_range:
  "0 \<le> i \<Longrightarrow> i < int (length xs) \<Longrightarrow> py_index xs i = Inr (xs ! nat i)"
  by (simp add: py_index_def)

lemma context_before_loop_total:
  "(\<And>i. i \<in> set js \<Longrightarrow> 0 \<le> i) \<Longrightarrow> \<exists>r. context_before_loop ls js acc = Inr r"
proof (induction js arbitrary: acc)
  case Nil
  show ?case by simp
next
  case (Cons j js)
  have "0 \<le> j" using Cons.prems by simp
  then show ?case using Cons.IH Cons.prems by (simp add: py_index_in_range)
qed

lemma context_after_loop_total:
  "(\<And>i. i \<in> set js \<Longrightarrow> 0 \<le> i \<and> i < int (length ls)) \<Longrightarrow>
   \<exists>r. context_after_loop ls js acc = Inr r"
proof (induction js arbitrary: acc)
  case Nil
  show ?case by simp
next
  case (Cons j js)
  have "0 \<le> j" "j < int (length ls)" using Cons.prems by simp_all
  then show ?case using Cons.IH Cons.prems by (simp add: py_index_in_range)
qed

lemma line_context_total:
  assumes "1 \<le> n" and "n \<le> total_lines t"
  shows "\<exists>fc before after. line_context t n = Inr (fc, before, after)"
proof -
  define ls where "ls = splitlines False (original_content t)"
  have n: "n \<le> int (length ls)" using assms(2) by (simp add: total_lines_eq ls_def)
  have 1: "py_index ls (n - 1) = Inr (ls ! nat (n - 1))"
    using assms(1) n by (simp add: py_index_in_range)
  obtain b where 2: "context_before_loop ls (py_range (max 0 (n - 4)) (n - 1)) [] = Inr b"
    using context_before_loop_total [of "py_range (max 0 (n - 4)) (n - 1)" ls "[]"]
    by (auto simp: py_range_def)
  obtain a where 3: "context_after_loop ls (py_range n (min (int (length ls)) (n + 3))) [] = Inr a"
    using context_after_loop_total [of "py_range n (min (int (length ls)) (n + 3))" ls "[]"] assms(1)
    by (auto simp: py_range_def)
  show ?thesis using n 1 2 3 by (simp add: line_context_def Let_def ls_def [symmetric])
qed

lemma binary_loop_range:
  "binary_loop orc t low high lst fl sts sn hist = (lst', fl', sts', hist') \<Longrightarrow>
   fl' = Some f \<Longrightarrow> fl = Some f \<or> (low \<le> f \<and> f \<le> high)"
proof (induction "nat (high - low + 1)" arbitrary: low high lst fl sts sn hist rule: less_induct)
  case less
  show ?case
  proof (cases "low \<le> high")
    case False
    have "fl' = fl"
      using less.prems(1) by (simp_all only: binary_loop_done [OF False] prod.inject)
    then show ?thesis using less.prems(2) by simp
  next
    case True
    define mid where "mid = (low + high) div 2"
    have mid: "low \<le> mid" "mid \<le> high" unfolding mid_def using True by linarith+
    obtain res h where ex: "execute_up_to_block orc hist t ((low + high) div 2) = (res, h)"
      by (cases "execute_up_to_block orc hist t ((low + high) div 2)")
    show ?thesis
    proof (cases "success res")
      case pass: True
      have m: "nat (high - (mid + 1) + 1) < nat (high - low + 1)" using mid by linarith
      have eq: "binary_loop orc t (mid + 1) high mid fl (sts @ [mk_step (sn + 1) mid res])
                  (sn + 1) h = (lst', fl', sts', hist')"
        using less.prems(1) binary_loop_pass [OF True ex pass, of lst fl sts sn]
        by (simp add: mid_def)
      show ?thesis
        using less.hyps [OF m eq less.prems(2)] mid by auto
    next
      case nopass: False
      have m: "nat (mid - 1 - low + 1) < nat (high - low + 1)" using mid by linarith
      have eq: "binary_loop orc t low (mid - 1) lst (Some mid) (sts @ [mk_step (sn + 1) mid res])
                  (sn + 1) h = (lst', fl', sts', hist')"
        using less.prems(1) binary_loop_fail [OF True ex nopass, of lst fl sts sn]
        by (simp add: mid_def)
      show ?thesis
        using less.hyps [OF m eq less.prems(2)] mid by auto
    qed
  qed
qed


lemma line_binary_loop_range:
  "line_binary_loop orc t low high lst fl lr sts sn hist = (lst', fl', lr', sts', hist') \<Longrightarrow>
   fl' = Some f \<Longrightarrow> fl = Some f \<or> (low \<le> f \<and> f \<le> high)"
proof (induction "nat (high - low + 1)" arbitrary: low high lst fl lr sts sn hist rule: less_induct)
  case less
  show ?case
  proof (cases "low \<le> high")
    case False
    have "fl' = fl"
      using less.prems(1) by (simp_all only: line_binary_loop_done [OF False] prod.inject)
    then show ?thesis using less.prems(2) by simp
  next
    case True
    define mid where "mid = (low + high) div 2"
    have mid: "low \<le> mid" "mid \<le> high" unfolding mid_def using True by linarith+
    obtain res h where ex: "execute_up_to_line orc hist t ((low + high) div 2) = (res, h)"
      by (cases "execute_up_to_line orc hist t ((low + high) div 2)")
    show ?thesis
    proof (cases "success res")
      case pass: True
      have m: "nat (high - (mid + 1) + 1) < nat (high - low + 1)" using mid by linarith
      have eq: "line_binary_loop orc t (mid + 1) high mid fl (Some res) (sts @ [mk_line_step (sn + 1) mid res])
                  (sn + 1) h = (lst', fl', lr', sts', hist')"
        using less.prems(1) line_binary_loop_pass [OF True ex pass, of lst fl lr sts sn]
        by (simp add: mid_def)
      show ?thesis
        using less.hyps [OF m eq less.prems(2)] mid by auto
    next
      case nopass: False
      have m: "nat (mid - 1 - low + 1) < nat (high - low + 1)" using mid by linarith
      have eq: "line_binary_loop orc t low (mid - 1) lst (Some mid) lr (sts @ [mk_line_step (sn + 1) mid res])
                  (sn + 1) h = (lst', fl', lr', sts', hist')"
        using less.prems(1) line_binary_loop_fail [OF True ex nopass, of lst fl lr sts sn]
        by (simp add: mid_def)
      show ?thesis
        using less.hyps [OF m eq less.prems(2)] mid by auto
    qed
  qed
qed


lemma line_binary_loop_all_pass:
  "line_binary_loop orc t low high lst fl lr sts sn hist = (lst', fl', lr', sts', hist') \<Longrightarrow>
   (\<And>h m. low \<le> m \<Longrightarrow> m \<le> high \<Longrightarrow> success (fst (execute_up_to_line orc h t m))) \<Longrightarrow>
   fl' = fl"
proof (induction "nat (high - low + 1)" arbitrary: low high lst fl lr sts sn hist rule: less_induct)
  case less
  show ?case
  proof (cases "low \<le> high")
    case False
    show ?thesis
      using less.prems(1) by (simp_all only: line_binary_loop_done [OF False] prod.inject)
  next
    case True
    define mid where "mid = (low + high) div 2"
    have mid: "low \<le> mid" "mid \<le> high" unfolding mid_def using True by linarith+
    obtain res h where ex: "execute_up_to_line orc hist t ((low + high) div 2) = (res, h)"
      by (cases "execute_up_to_line orc hist t ((low + high) div 2)")
    have pass: "success res"
      using less.prems(2) [OF mid, of hist] ex by (simp add: mid_def)
    have m: "nat (high - (mid + 1) + 1) < nat (high - low + 1)" using mid by linarith
    have eq: "line_binary_loop orc t (mid + 1) high mid fl (Some res)
                (sts @ [mk_line_step (sn + 1) mid res]) (sn + 1) h = (lst', fl', lr', sts', hist')"
      using less.prems(1) line_binary_loop_pass [OF True ex pass, of lst fl lr sts sn]
      by (simp add: mid_def)
    show ?thesis
    proof (rule less.hyps [OF m eq])
      show "success (fst (execute_up_to_line orc h' t m'))"
        if "mid + 1 \<le> m'" "m' \<le> high" for h' m'
        using that mid less.prems(2) [of m' h'] by simp
    qed
  qed
qed

lemma binary_search_found:
  assumes "blocks t \<noteq> []"
      and "\<not> success (fst (validate_full_template orc hist t))"
      and "binary_loop orc t 0 (int (length (blocks t)) - 1) (- 1) None [] 0
             (snd (validate_full_template orc hist t)) = (lst, Some f, sts, h2)"
  shows "binary_search orc hist t =
           Inr (\<lparr>found_error = True, failing_block = Some (blocks t ! nat f),
                 failing_block_index = Some f,
                 last_successful_block_index = (if lst \<ge> 0 then Some lst else None),
                 steps = sts, error_result = Some (fst (execute_up_to_block orc h2 t f)),
                 template = Some t\<rparr>, snd (execute_up_to_block orc h2 t f))"
proof -
  have "0 \<le> f \<and> f \<le> int (length (blocks t)) - 1"
    using binary_loop_range [OF assms(3) refl] by simp
  then have i: "py_index (blocks t) f = Inr (blocks t ! nat f)"
    by (simp add: py_index_in_range)
  show ?thesis
    using assms i by (simp add: binary_search_def case_prod_unfold)
qed

lemma binary_search_not_found:
  assumes "blocks t \<noteq> []"
      and "\<not> success (fst (validate_full_template orc hist t))"
      and "binary_loop orc t 0 (int (length (blocks t)) - 1) (- 1) None [] 0
             (snd (validate_full_template orc hist t)) = (lst, None, sts, h2)"
  shows "binary_search orc hist t = Inr (no_error_result t sts, h2)"
  using assms by (simp add: binary_search_def case_prod_unfold)

lemma binary_search_full_ok:
  assumes "blocks t \<noteq> []" and "success (fst (validate_full_template orc hist t))"
  shows "binary_search orc hist t = Inr (no_error_result t [], hist @ [original_content t])"
  using assms
  by (simp add: binary_search_def validate_full_template_def run_template_def case_prod_unfold)

lemma line_binary_search_found:
  assumes "total_lines t \<noteq> 0"
      and "line_binary_loop orc t 1 (total_lines t) 0 None None [] 0 hist = (lst, Some f, lr, sts, h1)"
  shows "\<exists>fc before after.
           line_context t f = Inr (fc, before, after) \<and>
           line_binary_search orc hist t =
           Inr (\<lparr>lr_found_error = True, failing_line = Some f, failing_content = Some fc,
                 last_successful_line = (if lst > 0 then Some lst else None),
                 lr_steps = sts, lr_error_result = Some (fst (execute_up_to_line orc h1 t f)),
                 last_successful_result = lr, lr_template = Some t,
                 context_before = before, context_after = after\<rparr>,
                snd (execute_up_to_line orc h1 t f))"
proof -
  have "1 \<le> f \<and> f \<le> total_lines t"
    using line_binary_loop_range [OF assms(2) refl] by simp
  then obtain fc before after where c: "line_context t f = Inr (fc, before, after)"
    using line_context_total by blast
  show ?thesis
    using assms c by (simp add: line_binary_search_def case_prod_unfold)
qed

lemma line_binary_search_not_found:
  assumes "total_lines t \<noteq> 0"
      and "line_binary_loop orc t 1 (total_lines t) 0 None None [] 0 hist = (lst, None, lr, sts, h1)"
  shows "line_binary_search orc hist t = Inr (no_line_error t sts, h1)"
  using assms by (simp add: line_binary_search_def case_prod_unfold)

section \<open>Evaluating the sample document\<close>

lemmas pats = pat_if_start_def pat_else_if_def pat_else_def pat_end_def pat_range_start_def
  pat_with_start_def pat_define_start_def pat_template_def pat_include_def pat_comment_def
  pat_expression_def open_brace_def lit_def
lemmas strs = py_def strip_def lstrip_def rstrip_def rstrip_nl_def isspace_def is_linebreak_def

lemma demo_lines: "splitlines True demo_text = [py ''a: 1'' @ [10], py ''bad'' @ [10], py ''c: 3'' @ [10]]"
  by (simp add: demo_text_def strs)

lemma demo_lines_False: "splitlines False demo_text = [py ''a: 1'', py ''bad'', py ''c: 3'']"
  by (simp add: demo_text_def strs)

lemma demo_blocks:
  "blocks demo_template =
     [mk_block PLAIN (py ''a: 1'' @ [10]) 1 (py ''t.yaml'') 0,
      mk_block PLAIN (py ''bad'' @ [10]) 2 (py ''t.yaml'') 0,
      mk_block PLAIN (py ''c: 3'' @ [10]) 3 (py ''t.yaml'') 0]"
  unfolding demo_template_def parse_file_def parse_content_def
  by (simp add: demo_lines) (simp add: detect_block_type_def pats strs)

lemma demo_block_probes:
  "create_partial_template demo_template (py_slice_to (blocks demo_template) 1) =
     py ''a: 1'' @ [10] @ py ''{{/* bad */}}'' @ [10] @ py ''{{/* c: 3 */}}'' @ [10]"
  "create_partial_template demo_template (py_slice_to (blocks demo_template) 2) =
     py ''a: 1'' @ [10] @ py ''bad'' @ [10] @ py ''{{/* c: 3 */}}'' @ [10]"
  "create_partial_template demo_template (py_slice_to (blocks demo_template) 3) = demo_text"
  unfolding demo_blocks create_partial_template_def
  by (simp_all add: demo_template_def parse_file_def demo_lines py_slice_to_def included_lines_def mk_block_def)
     (simp_all add: strs demo_text_def)

lemma demo_total_lines: "total_lines demo_template = 3"
  by (simp add: total_lines_def demo_template_def parse_file_def demo_lines_False)
     (simp add: demo_text_def py_def)

lemma demo_structure_map:
  "get_structure_map demo_text = [1 \<mapsto> False, 2 \<mapsto> False, 3 \<mapsto> False]"
  unfolding get_structure_map_def demo_lines_False
  by (simp add: is_control_line_def CONTROL_PATTERNS_def pats strs)

lemma demo_line_probes:
  "create_partial_by_line demo_template 1 = py ''a: 1'' @ [10, 10, 10]"
  "create_partial_by_line demo_template 2 = py ''a: 1'' @ [10] @ py ''bad'' @ [10, 10]"
  "create_partial_by_line demo_template 3 = demo_text"
  unfolding create_partial_by_line_def new_lines_by_line_def
  by (simp_all add: demo_template_def parse_file_def demo_lines demo_structure_map get_or_False_def)
     (simp_all add: strs demo_text_def)

lemma demo_renderer_block:
  "success (fst (execute_up_to_block demo_renderer h demo_template m)) = (m < 1)"
  if "0 \<le> m" "m \<le> 2"
proof -
  have "m = 0 \<or> m = 1 \<or> m = 2" using that by linarith
  then show ?thesis
    by (auto simp add: execute_up_to_block_def execute_with_blocks_def run_template_def
          demo_block_probes demo_renderer_def)
       (simp_all add: strs demo_text_def)
qed

lemma demo_renderer_line:
  "success (fst (execute_up_to_line demo_renderer h demo_template m)) = (m < 2)"
  if "1 \<le> m" "m \<le> 3"
proof -
  have "m = 1 \<or> m = 2 \<or> m = 3" using that by linarith
  then show ?thesis
    by (auto simp add: execute_up_to_line_def run_template_def demo_line_probes demo_renderer_def)
       (simp_all add: strs demo_text_def)
qed

lemma demo_renderer_full:
  "\<not> success (fst (validate_full_template demo_renderer h demo_template))"
  by (simp add: validate_full_template_def run_template_def demo_renderer_def demo_template_def
        parse_file_def demo_lines)



lemma floorlog_2_eq: "0 < n \<Longrightarrow> floorlog 2 n = nat \<lfloor>log 2 (real n)\<rfloor> + 1"
  by (simp add: floorlog_def)

lemma block_bisection_monotone:
  assumes ne: "blocks t \<noteq> []" and k: "0 \<le> k" "k < int (length (blocks t))"
      and mono: "\<And>h m. 0 \<le> m \<Longrightarrow> m < int (length (blocks t)) \<Longrightarrow>
                   success (fst (execute_up_to_block orc h t m)) = (m < k)"
      and full: "\<not> success (fst (validate_full_template orc hist t))"
  shows "\<exists>r h'. binary_search orc hist t = Inr (r, h') \<and> found_error r \<and>
           failing_block_index r = Some k \<and> failing_block r = Some (blocks t ! nat k) \<and>
           last_successful_block_index r = (if k = 0 then None else Some (k - 1)) \<and>
           length (steps r) \<le> nat \<lfloor>log 2 (real (length (blocks t)))\<rfloor> + 1"
proof -
  obtain lst fl sts h2 where
    l: "binary_loop orc t 0 (int (length (blocks t)) - 1) (- 1) None [] 0
          (snd (validate_full_template orc hist t)) = (lst, fl, sts, h2)"
    using prod_cases4 by blast
  have "fl = Some k \<and> lst = k - 1"
  proof (rule binary_loop_monotone [OF l])
    show "success (fst (execute_up_to_block orc h t m)) = (m < k)"
      if "0 \<le> m" "m \<le> int (length (blocks t)) - 1" for h m
      using that mono [of m h] by simp
  qed (use k in simp_all)
  then have fl: "fl = Some k" and lst: "lst = k - 1" by simp_all
  obtain n where n: "length sts = length ([] :: SearchStep list) + n"
    "n \<le> floorlog 2 (nat (int (length (blocks t)) - 1 - 0 + 1))"
    using binary_loop_steps [OF l] by blast
  have "length sts \<le> nat \<lfloor>log 2 (real (length (blocks t)))\<rfloor> + 1"
    using n ne by (simp add: floorlog_2_eq)
  then show ?thesis
    using binary_search_found [OF ne full l [unfolded fl]] k(1)
    by (simp add: lst)
qed

lemma line_bisection_monotone:
  assumes ne: "total_lines t \<noteq> 0" and k: "1 \<le> k" "k \<le> total_lines t"
      and mono: "\<And>h m. 1 \<le> m \<Longrightarrow> m \<le> total_lines t \<Longrightarrow>
                   success (fst (execute_up_to_line orc h t m)) = (m < k)"
  shows "\<exists>r h'. line_binary_search orc hist t = Inr (r, h') \<and> lr_found_error r \<and>
           failing_line r = Some k \<and>
           last_successful_line r = (if k = 1 then None else Some (k - 1)) \<and>
           length (lr_steps r) \<le> nat \<lfloor>log 2 (real (nat (total_lines t)))\<rfloor> + 1"
proof -
  obtain lst fl lr sts h1 where
    l: "line_binary_loop orc t 1 (total_lines t) 0 None None [] 0 hist = (lst, fl, lr, sts, h1)"
    using prod_cases5 by blast
  have "fl = Some k \<and> lst = k - 1"
    by (rule line_binary_loop_monotone [OF l]) (use k mono in simp_all)
  then have fl: "fl = Some k" and lst: "lst = k - 1" by simp_all
  obtain n where n: "length sts = length ([] :: LineSearchStep list) + n"
    "n \<le> floorlog 2 (nat (total_lines t - 1 + 1))"
    using line_binary_loop_steps [OF l] by blast
  have pos: "0 < nat (total_lines t)" using k by simp
  have "length sts \<le> nat \<lfloor>log 2 (real (nat (total_lines t)))\<rfloor> + 1"
    using n floorlog_2_eq [OF pos] by simp
  then show ?thesis
    using line_binary_search_found [OF ne l [unfolded fl]] k(1)
    by (auto simp add: lst)
qed

lemma demo_binary_search:
  "\<exists>r h. binary_search demo_renderer [] demo_template = Inr (r, h) \<and> found_error r \<and>
         last_successful_block_index r = Some 0"
  using block_bisection_monotone [of demo_template 1 demo_renderer "[]"]
    demo_renderer_block demo_renderer_full
  by (simp add: demo_blocks) blast

lemma demo_line_binary_search:
  "\<exists>r h. line_binary_search demo_renderer [] demo_template = Inr (r, h) \<and> lr_found_error r \<and>
         last_successful_line r = Some 1"
  using line_bisection_monotone [of demo_template 2 demo_renderer "[]"] demo_renderer_line
  by (simp add: demo_total_lines) blast

section \<open>The claims about the searchers\<close>

text \<open>
  C10. Whatever the renderer answers, a bisection that reports an error together with a
  last-known-good index reports the index right after it as the failing one: in block
  granularity \<open>failing_block_index = last_successful_block_index + 1\<close>, in line granularity
  \<open>failing_line = last_successful_line + 1\<close>.
\<close>

theorem bisection_failing_follows_last_good:
  "(\<forall>r h g. binary_search orc hist t = Inr (r, h) \<and> found_error r \<and>
        last_successful_block_index r = Some g \<longrightarrow> failing_block_index r = Some (g + 1)) \<and>
   (\<forall>r h g. line_binary_search orc hist t = Inr (r, h) \<and> lr_found_error r \<and>
        last_successful_line r = Some g \<longrightarrow> failing_line r = Some (g + 1))"
proof (intro conjI allI impI)
  fix r h g
  assume a: "binary_search orc hist t = Inr (r, h) \<and> found_error r \<and>
    last_successful_block_index r = Some g"
  then have ne: "blocks t \<noteq> []"
    by (auto simp: binary_search_def no_error_result_def)
  have nf: "\<not> success (fst (validate_full_template orc hist t))"
    using a binary_search_full_ok [OF ne, of orc hist] by (auto simp: no_error_result_def)
  obtain lst fl sts h2 where
    l: "binary_loop orc t 0 (int (length (blocks t)) - 1) (- 1) None [] 0
          (snd (validate_full_template orc hist t)) = (lst, fl, sts, h2)"
    using prod_cases4 by blast
  show "failing_block_index r = Some (g + 1)"
  proof (cases fl)
    case None
    then show ?thesis
      using a binary_search_not_found [OF ne nf, of lst sts h2] l by (auto simp: no_error_result_def)
  next
    case (Some f)
    have "f = lst + 1" using binary_loop_adjacent [OF l] Some by simp
    then show ?thesis
      using a binary_search_found [OF ne nf, of lst f sts h2] l Some
      by (auto split: if_splits)
  qed
next
  fix r h g
  assume a: "line_binary_search orc hist t = Inr (r, h) \<and> lr_found_error r \<and>
    last_successful_line r = Some g"
  then have ne: "total_lines t \<noteq> 0"
    by (auto simp: line_binary_search_def no_line_error_def)
  obtain lst fl lr sts h1 where
    l: "line_binary_loop orc t 1 (total_lines t) 0 None None [] 0 hist = (lst, fl, lr, sts, h1)"
    using prod_cases5 by blast
  show "failing_line r = Some (g + 1)"
  proof (cases fl)
    case None
    then show ?thesis
      using a line_binary_search_not_found [OF ne, of orc hist lst lr sts h1] l
      by (auto simp: no_line_error_def)
  next
    case (Some f)
    have "f = lst + 1" using line_binary_loop_adjacent [OF l] ne Some
      by (simp add: total_lines_def split: if_splits)
    then show ?thesis
      using a line_binary_search_found [OF ne, of orc hist lst f lr sts h1] l Some
      by (auto split: if_splits)
  qed
qed

text \<open>
  On the sample document both bisections report an error with a last-known-good index, and
  the failing index is the next one.
\<close>

theorem bisection_failing_follows_last_good_witness:
  "(\<exists>r h. binary_search demo_renderer [] demo_template = Inr (r, h) \<and> found_error r \<and>
      last_successful_block_index r = Some 0 \<and> failing_block_index r = Some (0 + 1)) \<and>
   (\<exists>r h. line_binary_search demo_renderer [] demo_template = Inr (r, h) \<and> lr_found_error r \<and>
      last_successful_line r = Some 1 \<and> failing_line r = Some (1 + 1))"
proof -
  note th = bisection_failing_follows_last_good [of demo_renderer "[]" demo_template]
  obtain r h where b: "binary_search demo_renderer [] demo_template = Inr (r, h)"
    "found_error r" "last_successful_block_index r = Some 0"
    using demo_binary_search by blast
  have "failing_block_index r = Some (0 + 1)"
    using th b by blast
  moreover
  obtain r' h' where l: "line_binary_search demo_renderer [] demo_template = Inr (r', h')"
    "lr_found_error r'" "last_successful_line r' = Some 1"
    using demo_line_binary_search by blast
  have "failing_line r' = Some (1 + 1)"
    using th l by blast
  ultimately show ?thesis using b l by blast
qed

text \<open>
  C1. When the probes are monotone (the probe with cutoff \<open>m\<close> succeeds exactly when
  \<open>m < k\<close>) and the full document fails, bisection returns an error with failing index
  exactly \<open>k\<close>, last-known-good index \<open>k - 1\<close> (none when \<open>k\<close> is the first unit or line), and
  at most \<open>\<lfloor>log\<^sub>2 n\<rfloor> + 1\<close> recorded steps for \<open>n\<close> units or lines. Block indices count from
  0, line numbers from 1.
\<close>

theorem bisection_converges_on_monotone_probes:
  "(blocks t \<noteq> [] \<and> 0 \<le> k \<and> k < int (length (blocks t)) \<and>
    (\<forall>h m. 0 \<le> m \<and> m < int (length (blocks t)) \<longrightarrow>
       success (fst (execute_up_to_block orc h t m)) = (m < k)) \<and>
    \<not> success (fst (validate_full_template orc hist t)) \<longrightarrow>
    (\<exists>r h'. binary_search orc hist t = Inr (r, h') \<and> found_error r \<and>
       failing_block_index r = Some k \<and> failing_block r = Some (blocks t ! nat k) \<and>
       last_successful_block_index r = (if k = 0 then None else Some (k - 1)) \<and>
       length (steps r) \<le> nat \<lfloor>log 2 (real (length (blocks t)))\<rfloor> + 1)) \<and>
   (total_lines t \<noteq> 0 \<and> 1 \<le> j \<and> j \<le> total_lines t \<and>
    (\<forall>h m. 1 \<le> m \<and> m \<le> total_lines t \<longrightarrow>
       success (fst (execute_up_to_line orc h t m)) = (m < j)) \<longrightarrow>
    (\<exists>r h'. line_binary_search orc hist t = Inr (r, h') \<and> lr_found_error r \<and>
       failing_line r = Some j \<and>
       last_successful_line r = (if j = 1 then None else Some (j - 1)) \<and>
       length (lr_steps r) \<le> nat \<lfloor>log 2 (real (nat (total_lines t)))\<rfloor> + 1))"
proof (intro conjI impI)
  assume a: "blocks t \<noteq> [] \<and> 0 \<le> k \<and> k < int (length (blocks t)) \<and>
    (\<forall>h m. 0 \<le> m \<and> m < int (length (blocks t)) \<longrightarrow>
       success (fst (execute_up_to_block orc h t m)) = (m < k)) \<and>
    \<not> success (fst (validate_full_template orc hist t))"
  show "\<exists>r h'. binary_search orc hist t = Inr (r, h') \<and> found_error r \<and>
       failing_block_index r = Some k \<and> failing_block r = Some (blocks t ! nat k) \<and>
       last_successful_block_index r = (if k = 0 then None else Some (k - 1)) \<and>
       length (steps r) \<le> nat \<lfloor>log 2 (real (length (blocks t)))\<rfloor> + 1"
    by (rule block_bisection_monotone) (use a in simp_all)
next
  assume a: "total_lines t \<noteq> 0 \<and> 1 \<le> j \<and> j \<le> total_lines t \<and>
    (\<forall>h m. 1 \<le> m \<and> m \<le> total_lines t \<longrightarrow>
       success (fst (execute_up_to_line orc h t m)) = (m < j))"
  show "\<exists>r h'. line_binary_search orc hist t = Inr (r, h') \<and> lr_found_error r \<and>
       failing_line r = Some j \<and>
       last_successful_line r = (if j = 1 then None else Some (j - 1)) \<and>
       length (lr_steps r) \<le> nat \<lfloor>log 2 (real (nat (total_lines t)))\<rfloor> + 1"
    by (rule line_bisection_monotone) (use a in simp_all)
qed

text \<open>
  The sample document has three units and three lines; its second line is the bad one
  (unit 1, line 2), and two steps are within the bound \<open>\<lfloor>log\<^sub>2 3\<rfloor> + 1\<close>.
\<close>

theorem bisection_converges_on_monotone_probes_witness:
  "(\<exists>r h'. binary_search demo_renderer [] demo_template = Inr (r, h') \<and> found_error r \<and>
      failing_block_index r = Some 1 \<and> last_successful_block_index r = Some 0 \<and>
      length (steps r) \<le> 2) \<and>
   (\<exists>r h'. line_binary_search demo_renderer [] demo_template = Inr (r, h') \<and>
      lr_found_error r \<and> failing_line r = Some 2 \<and> last_successful_line r = Some 1 \<and>
      length (lr_steps r) \<le> 2)"
proof -
  note th = bisection_converges_on_monotone_probes [of demo_template 1 demo_renderer "[]" 2]
  have log3: "nat \<lfloor>log 2 (real 3)\<rfloor> + 1 = 2"
    using floorlog_2_eq [of 3, symmetric] by (simp add: compute_floorlog)
  have n: "length (blocks demo_template) = 3" "nat (total_lines demo_template) = 3"
    by (simp_all add: demo_blocks demo_total_lines)
  have hb: "blocks demo_template \<noteq> [] \<and> (0::int) \<le> 1 \<and>
      1 < int (length (blocks demo_template)) \<and>
      (\<forall>h m. 0 \<le> m \<and> m < int (length (blocks demo_template)) \<longrightarrow>
         success (fst (execute_up_to_block demo_renderer h demo_template m)) = (m < 1)) \<and>
      \<not> success (fst (validate_full_template demo_renderer [] demo_template))"
    using demo_renderer_block demo_renderer_full [of "[]"] by (simp add: demo_blocks)
  have hl: "total_lines demo_template \<noteq> 0 \<and> (1::int) \<le> 2 \<and> 2 \<le> total_lines demo_template \<and>
      (\<forall>h m. 1 \<le> m \<and> m \<le> total_lines demo_template \<longrightarrow>
         success (fst (execute_up_to_line demo_renderer h demo_template m)) = (m < 2))"
    using demo_renderer_line by (simp add: demo_total_lines)
  from th hb obtain r h' where
    "binary_search demo_renderer [] demo_template = Inr (r, h')" "found_error r"
    "failing_block_index r = Some 1"
    "last_successful_block_index r = (if (1::int) = 0 then None else Some (1 - 1))"
    "length (steps r) \<le> nat \<lfloor>log 2 (real (length (blocks demo_template)))\<rfloor> + 1"
    by blast
  then have b: "\<exists>r h'. binary_search demo_renderer [] demo_template = Inr (r, h') \<and>
      found_error r \<and> failing_block_index r = Some 1 \<and>
      last_successful_block_index r = Some 0 \<and> length (steps r) \<le> 2"
    unfolding n log3 by simp
  from th hl obtain r h' where
    "line_binary_search demo_renderer [] demo_template = Inr (r, h')" "lr_found_error r"
    "failing_line r = Some 2"
    "last_successful_line r = (if (2::int) = 1 then None else Some (2 - 1))"
    "length (lr_steps r) \<le> nat \<lfloor>log 2 (real (nat (total_lines demo_template)))\<rfloor> + 1"
    by blast
  then have l: "\<exists>r h'. line_binary_search demo_renderer [] demo_template = Inr (r, h') \<and>
      lr_found_error r \<and> failing_line r = Some 2 \<and> last_successful_line r = Some 1 \<and>
      length (lr_steps r) \<le> 2"
    unfolding n log3 by simp
  show ?thesis using b l by (rule conjI)
qed

text \<open>
  C9. On the empty document (no line, hence no unit) each of the four searchers returns
  \<open>found_error = False\<close> with an empty list of steps, and the renderer is not asked: the
  list of rendered texts is unchanged.
\<close>

theorem empty_document_is_not_probed:
  "blocks (parse_file fp []) = [] \<and> total_lines (parse_file fp []) = 0 \<and>
   (\<exists>r. binary_search orc hist (parse_file fp []) = Inr (r, hist) \<and>
        \<not> found_error r \<and> steps r = []) \<and>
   (\<exists>r. step_search orc hist (parse_file fp []) start_from = Inr (r, hist) \<and>
        \<not> found_error r \<and> steps r = []) \<and>
   (\<exists>r. line_binary_search orc hist (parse_file fp []) = Inr (r, hist) \<and>
        \<not> lr_found_error r \<and> lr_steps r = []) \<and>
   (\<exists>r. line_step_search orc hist (parse_file fp []) start = Inr (r, hist) \<and>
        \<not> lr_found_error r \<and> lr_steps r = [])"
proof -
  have b: "blocks (parse_file fp []) = []"
    by (simp add: parse_file_def parse_content_def)
  have l: "total_lines (parse_file fp []) = 0"
    by (simp add: total_lines_def parse_file_def)
  show ?thesis
    by (simp add: b l binary_search_def step_search_def line_binary_search_def
          line_step_search_def no_error_result_def no_line_error_def)
qed

section \<open>Properties of the linear searchers\<close>

declare step_loop.simps [simp del] line_step_loop.simps [simp del]

lemma execute_up_to_block_eq:
  "execute_up_to_block orc hist t m = (orc hist (block_probe t m), hist @ [block_probe t m])"
  by (simp add: execute_up_to_block_def execute_with_blocks_def run_template_def block_probe_def)

lemma execute_up_to_line_eq:
  "execute_up_to_line orc hist t m =
     (orc hist (create_partial_by_line t m), hist @ [create_partial_by_line t m])"
  by (simp add: execute_up_to_line_def run_template_def)

lemma step_loop_pass:
  "success (orc hist (block_probe t i)) \<Longrightarrow>
   step_loop orc t s (i # rest) lst sts hist =
   step_loop orc t s rest i (sts @ [mk_step (i - s + 1) i (orc hist (block_probe t i))])
     (hist @ [block_probe t i])"
  by (simp add: step_loop.simps execute_up_to_block_eq)

lemma step_loop_fail:
  "\<not> success (orc hist (block_probe t i)) \<Longrightarrow> 0 \<le> i \<Longrightarrow> i < int (length (blocks t)) \<Longrightarrow>
   step_loop orc t s (i # rest) lst sts hist =
   Inr (\<lparr>found_error = True, failing_block = Some (blocks t ! nat i),
         failing_block_index = Some i,
         last_successful_block_index = (if lst \<ge> 0 then Some lst else None),
         steps = sts @ [mk_step (i - s + 1) i (orc hist (block_probe t i))],
         error_result = Some (orc hist (block_probe t i)), template = Some t\<rparr>,
        hist @ [block_probe t i])"
  by (simp add: step_loop.simps execute_up_to_block_eq py_index_in_range)

text \<open>The steps a linear block search records for the cutoffs \<open>i..j\<close>, started with \<open>hist\<close>.\<close>

lemma upto_shift_hist:
  "i \<le> j \<Longrightarrow>
   map (\<lambda>m. f (hist @ map g [i..m - 1]) m) [i + 1..j] =
   map (\<lambda>m. f ((hist @ [g i]) @ map g [i + 1..m - 1]) m) [i + 1..j]"
  by (rule map_cong) (simp_all add: upto_rec1 [of i])

lemma step_loop_stops_at_first_failure:
  assumes "0 \<le> i" and "i \<le> j" and "j < int (length (blocks t))"
      and "\<And>m. i \<le> m \<Longrightarrow> m < j \<Longrightarrow>
             success (orc (hist @ map (block_probe t) [i..m - 1]) (block_probe t m))"
      and "\<not> success (orc (hist @ map (block_probe t) [i..j - 1]) (block_probe t j))"
  shows "step_loop orc t s [i..int (length (blocks t)) - 1] lst sts hist =
     Inr (\<lparr>found_error = True, failing_block = Some (blocks t ! nat j),
           failing_block_index = Some j,
           last_successful_block_index =
             (if i < j then Some (j - 1) else if lst \<ge> 0 then Some lst else None),
           steps = sts @ map (\<lambda>m. mk_step (m - s + 1) m
                     (orc (hist @ map (block_probe t) [i..m - 1]) (block_probe t m))) [i..j],
           error_result = Some (orc (hist @ map (block_probe t) [i..j - 1]) (block_probe t j)),
           template = Some t\<rparr>,
          hist @ map (block_probe t) [i..j])"
  using assms
proof (induction "nat (j - i)" arbitrary: i lst sts hist)
  case 0
  then have ij: "i = j" by simp
  have l: "[j..int (length (blocks t)) - 1] = j # [j + 1..int (length (blocks t)) - 1]"
    using "0.prems"(3) by (simp add: upto_rec1)
  show ?case
    using "0.prems"(1,3,5) unfolding ij l
    by (simp add: step_loop_fail)
next
  case (Suc n)
  then have ij: "i < j" by simp
  have l: "[i..int (length (blocks t)) - 1] = i # [i + 1..int (length (blocks t)) - 1]"
    using ij Suc.prems(3) by (simp add: upto_rec1)
  have l2: "[i..j] = i # [i + 1..j]" using ij by (simp add: upto_rec1)
  have p: "success (orc hist (block_probe t i))"
    using Suc.prems(4) [of i] ij by simp
  have n: "n = nat (j - (i + 1))" using Suc.hyps(2) by simp
  have IH: "step_loop orc t s [i + 1..int (length (blocks t)) - 1] i
      (sts @ [mk_step (i - s + 1) i (orc hist (block_probe t i))]) (hist @ [block_probe t i]) =
     Inr (\<lparr>found_error = True, failing_block = Some (blocks t ! nat j),
           failing_block_index = Some j,
           last_successful_block_index =
             (if i + 1 < j then Some (j - 1) else if i \<ge> 0 then Some i else None),
           steps = (sts @ [mk_step (i - s + 1) i (orc hist (block_probe t i))]) @
                   map (\<lambda>m. mk_step (m - s + 1) m
                     (orc ((hist @ [block_probe t i]) @ map (block_probe t) [i + 1..m - 1])
                        (block_probe t m))) [i + 1..j],
           error_result = Some (orc ((hist @ [block_probe t i]) @
                                  map (block_probe t) [i + 1..j - 1]) (block_probe t j)),
           template = Some t\<rparr>,
          (hist @ [block_probe t i]) @ map (block_probe t) [i + 1..j])"
  proof (rule Suc.hyps(1) [OF n])
    show "0 \<le> i + 1" using Suc.prems(1) by simp
    show "i + 1 \<le> j" using ij by simp
    show "j < int (length (blocks t))" by (rule Suc.prems(3))
    show "success (orc ((hist @ [block_probe t i]) @ map (block_probe t) [i + 1..m - 1])
             (block_probe t m))" if "i + 1 \<le> m" "m < j" for m
      using Suc.prems(4) [of m] that by (simp add: upto_rec1 [of i])
    show "\<not> success (orc ((hist @ [block_probe t i]) @ map (block_probe t) [i + 1..j - 1])
             (block_probe t j))"
      using Suc.prems(5) ij by (simp add: upto_rec1 [of i])
  qed
  have e: "[i..j - 1] = i # [i + 1..j - 1]" using ij by (simp add: upto_rec1)
  have last: "(if i + 1 < j then Some (j - 1) else if i \<ge> 0 then Some i else None) = Some (j - 1)"
    using ij Suc.prems(1) by auto
  show ?case
    unfolding l step_loop_pass [of orc hist t i, OF p] IH last
    using ij upto_shift_hist [of i j "\<lambda>h m. mk_step (m - s + 1) m (orc h (block_probe t m))" hist "block_probe t"]
    by (simp add: l2 e)
qed


lemma step_loop_all_pass:
  assumes "\<And>m. i \<le> m \<Longrightarrow> m < int (length (blocks t)) \<Longrightarrow>
             success (orc (hist @ map (block_probe t) [i..m - 1]) (block_probe t m))"
  shows "step_loop orc t s [i..int (length (blocks t)) - 1] lst sts hist =
     Inr (\<lparr>found_error = False, failing_block = None, failing_block_index = None,
           last_successful_block_index = Some (int (length (blocks t)) - 1),
           steps = sts @ map (\<lambda>m. mk_step (m - s + 1) m
                     (orc (hist @ map (block_probe t) [i..m - 1]) (block_probe t m)))
                     [i..int (length (blocks t)) - 1],
           error_result = None, template = Some t\<rparr>,
          hist @ map (block_probe t) [i..int (length (blocks t)) - 1])"
  using assms
proof (induction "nat (int (length (blocks t)) - i)" arbitrary: i lst sts hist)
  case 0
  then have "[i..int (length (blocks t)) - 1] = []" by simp
  then show ?case by (simp add: step_loop.simps)
next
  case (Suc n)
  define N where "N = int (length (blocks t))"
  have iN: "i < N" using Suc.hyps(2) by (simp add: N_def)
  have l: "[i..N - 1] = i # [i + 1..N - 1]" using iN by (simp add: upto_rec1)
  have p: "success (orc hist (block_probe t i))"
    using Suc.prems [of i] iN by (simp add: N_def)
  have n: "n = nat (int (length (blocks t)) - (i + 1))" using Suc.hyps(2) by simp
  have IH: "step_loop orc t s [i + 1..N - 1] i
      (sts @ [mk_step (i - s + 1) i (orc hist (block_probe t i))]) (hist @ [block_probe t i]) =
     Inr (\<lparr>found_error = False, failing_block = None, failing_block_index = None,
           last_successful_block_index = Some (N - 1),
           steps = (sts @ [mk_step (i - s + 1) i (orc hist (block_probe t i))]) @
                   map (\<lambda>m. mk_step (m - s + 1) m
                     (orc ((hist @ [block_probe t i]) @ map (block_probe t) [i + 1..m - 1])
                        (block_probe t m))) [i + 1..N - 1],
           error_result = None, template = Some t\<rparr>,
          (hist @ [block_probe t i]) @ map (block_probe t) [i + 1..N - 1])"
    unfolding N_def
  proof (rule Suc.hyps(1) [OF n])
    show "success (orc ((hist @ [block_probe t i]) @ map (block_probe t) [i + 1..m - 1])
             (block_probe t m))" if "i + 1 \<le> m" "m < int (length (blocks t))" for m
      using Suc.prems [of m] that by (simp add: upto_rec1 [of i])
  qed
  show ?case
    unfolding N_def [symmetric] l step_loop_pass [of orc hist t i, OF p] IH
    using iN upto_shift_hist [of i "N - 1" "\<lambda>h m. mk_step (m - s + 1) m (orc h (block_probe t m))"
        hist "block_probe t"]
    by simp
qed

lemma line_step_loop_pass:
  "success (orc hist (create_partial_by_line t i)) \<Longrightarrow>
   line_step_loop orc t s (i # rest) lst lres sts hist =
   line_step_loop orc t s rest i (Some (orc hist (create_partial_by_line t i)))
     (sts @ [mk_line_step (i - s + 1) i (orc hist (create_partial_by_line t i))])
     (hist @ [create_partial_by_line t i])"
  by (simp add: line_step_loop.simps execute_up_to_line_eq)

lemma line_step_loop_fail:
  "\<not> success (orc hist (create_partial_by_line t i)) \<Longrightarrow>
   line_context t i = Inr (fc, before, after) \<Longrightarrow>
   line_step_loop orc t s (i # rest) lst lres sts hist =
   Inr (\<lparr>lr_found_error = True, failing_line = Some i, failing_content = Some fc,
         last_successful_line = (if lst > 0 then Some lst else None),
         lr_steps = sts @ [mk_line_step (i - s + 1) i (orc hist (create_partial_by_line t i))],
         lr_error_result = Some (orc hist (create_partial_by_line t i)),
         last_successful_result = lres, lr_template = Some t,
         context_before = before, context_after = after\<rparr>,
        hist @ [create_partial_by_line t i])"
  by (simp add: line_step_loop.simps execute_up_to_line_eq)

lemma line_step_loop_stops_at_first_failure:
  assumes "1 \<le> i" and "i \<le> j" and "j \<le> total_lines t"
      and "\<And>m. i \<le> m \<Longrightarrow> m < j \<Longrightarrow>
             success (orc (hist @ map (create_partial_by_line t) [i..m - 1])
                        (create_partial_by_line t m))"
      and "\<not> success (orc (hist @ map (create_partial_by_line t) [i..j - 1])
                        (create_partial_by_line t j))"
  shows "\<exists>fc before after lres.
     line_context t j = Inr (fc, before, after) \<and>
     line_step_loop orc t s [i..total_lines t] lst lres0 sts hist =
     Inr (\<lparr>lr_found_error = True, failing_line = Some j, failing_content = Some fc,
           last_successful_line =
             (if i < j then Some (j - 1) else if lst > 0 then Some lst else None),
           lr_steps = sts @ map (\<lambda>m. mk_line_step (m - s + 1) m
                     (orc (hist @ map (create_partial_by_line t) [i..m - 1])
                        (create_partial_by_line t m))) [i..j],
           lr_error_result = Some (orc (hist @ map (create_partial_by_line t) [i..j - 1])
                                    (create_partial_by_line t j)),
           last_successful_result = lres, lr_template = Some t,
           context_before = before, context_after = after\<rparr>,
          hist @ map (create_partial_by_line t) [i..j])"
  using assms
proof (induction "nat (j - i)" arbitrary: i lst lres0 sts hist)
  case 0
  then have ij: "i = j" by simp
  have l: "[j..total_lines t] = j # [j + 1..total_lines t]"
    using "0.prems"(3) by (simp add: upto_rec1)
  obtain fc before after where c: "line_context t j = Inr (fc, before, after)"
    using line_context_total [of j t] "0.prems"(1,3) ij by blast
  show ?case
    using "0.prems"(5) unfolding ij l
    by (simp add: line_step_loop_fail [OF _ c] c)
next
  case (Suc n)
  then have ij: "i < j" by simp
  have l: "[i..total_lines t] = i # [i + 1..total_lines t]"
    using ij Suc.prems(3) by (simp add: upto_rec1)
  have l2: "[i..j] = i # [i + 1..j]" using ij by (simp add: upto_rec1)
  have p: "success (orc hist (create_partial_by_line t i))"
    using Suc.prems(4) [of i] ij by simp
  have n: "n = nat (j - (i + 1))" using Suc.hyps(2) by simp
  have "\<exists>fc before after lres.
     line_context t j = Inr (fc, before, after) \<and>
     line_step_loop orc t s [i + 1..total_lines t] i
       (Some (orc hist (create_partial_by_line t i)))
       (sts @ [mk_line_step (i - s + 1) i (orc hist (create_partial_by_line t i))])
       (hist @ [create_partial_by_line t i]) =
     Inr (\<lparr>lr_found_error = True, failing_line = Some j, failing_content = Some fc,
           last_successful_line =
             (if i + 1 < j then Some (j - 1) else if i > 0 then Some i else None),
           lr_steps = (sts @ [mk_line_step (i - s + 1) i (orc hist (create_partial_by_line t i))]) @
                   map (\<lambda>m. mk_line_step (m - s + 1) m
                     (orc ((hist @ [create_partial_by_line t i]) @
                            map (create_partial_by_line t) [i + 1..m - 1])
                        (create_partial_by_line t m))) [i + 1..j],
           lr_error_result = Some (orc ((hist @ [create_partial_by_line t i]) @
                                  map (create_partial_by_line t) [i + 1..j - 1])
                                    (create_partial_by_line t j)),
           last_successful_result = lres, lr_template = Some t,
           context_before = before, context_after = after\<rparr>,
          (hist @ [create_partial_by_line t i]) @ map (create_partial_by_line t) [i + 1..j])"
  proof (rule Suc.hyps(1) [OF n])
    show "1 \<le> i + 1" using Suc.prems(1) by simp
    show "i + 1 \<le> j" using ij by simp
    show "j \<le> total_lines t" by (rule Suc.prems(3))
    show "success (orc ((hist @ [create_partial_by_line t i]) @
             map (create_partial_by_line t) [i + 1..m - 1]) (create_partial_by_line t m))"
      if "i + 1 \<le> m" "m < j" for m
      using Suc.prems(4) [of m] that by (simp add: upto_rec1 [of i])
    show "\<not> success (orc ((hist @ [create_partial_by_line t i]) @
             map (create_partial_by_line t) [i + 1..j - 1]) (create_partial_by_line t j))"
      using Suc.prems(5) ij by (simp add: upto_rec1 [of i])
  qed
  then obtain fc before after lres where
    c: "line_context t j = Inr (fc, before, after)" and
    IH: "line_step_loop orc t s [i + 1..total_lines t] i
       (Some (orc hist (create_partial_by_line t i)))
       (sts @ [mk_line_step (i - s + 1) i (orc hist (create_partial_by_line t i))])
       (hist @ [create_partial_by_line t i]) =
     Inr (\<lparr>lr_found_error = True, failing_line = Some j, failing_content = Some fc,
           last_successful_line =
             (if i + 1 < j then Some (j - 1) else if i > 0 then Some i else None),
           lr_steps = (sts @ [mk_line_step (i - s + 1) i (orc hist (create_partial_by_line t i))]) @
                   map (\<lambda>m. mk_line_step (m - s + 1) m
                     (orc ((hist @ [create_partial_by_line t i]) @
                            map (create_partial_by_line t) [i + 1..m - 1])
                        (create_partial_by_line t m))) [i + 1..j],
           lr_error_result = Some (orc ((hist @ [create_partial_by_line t i]) @
                                  map (create_partial_by_line t) [i + 1..j - 1])
                                    (create_partial_by_line t j)),
           last_successful_result = lres, lr_template = Some t,
           context_before = before, context_after = after\<rparr>,
          (hist @ [create_partial_by_line t i]) @ map (create_partial_by_line t) [i + 1..j])"
    by blast
  have e: "[i..j - 1] = i # [i + 1..j - 1]" using ij by (simp add: upto_rec1)
  have last: "(if i + 1 < j then Some (j - 1) else if i > 0 then Some i else None) = Some (j - 1)"
    using ij Suc.prems(1) by auto
  have "line_step_loop orc t s [i..total_lines t] lst lres0 sts hist =
     Inr (\<lparr>lr_found_error = True, failing_line = Some j, failing_content = Some fc,
           last_successful_line =
             (if i < j then Some (j - 1) else if lst > 0 then Some lst else None),
           lr_steps = sts @ map (\<lambda>m. mk_line_step (m - s + 1) m
                     (orc (hist @ map (create_partial_by_line t) [i..m - 1])
                        (create_partial_by_line t m))) [i..j],
           lr_error_result = Some (orc (hist @ map (create_partial_by_line t) [i..j - 1])
                                    (create_partial_by_line t j)),
           last_successful_result = lres, lr_template = Some t,
           context_before = before, context_after = after\<rparr>,
          hist @ map (create_partial_by_line t) [i..j])"
    unfolding l line_step_loop_pass [of orc hist t i, OF p] IH last
    using ij upto_shift_hist [of i j
        "\<lambda>h m. mk_line_step (m - s + 1) m (orc h (create_partial_by_line t m))"
        hist "create_partial_by_line t"]
    by (simp add: l2 e)
  then show ?case using c by blast
qed

lemma line_step_loop_all_pass:
  assumes "\<And>m. i \<le> m \<Longrightarrow> m \<le> total_lines t \<Longrightarrow>
             success (orc (hist @ map (create_partial_by_line t) [i..m - 1])
                        (create_partial_by_line t m))"
  shows "line_step_loop orc t s [i..total_lines t] lst lres0 sts hist =
     Inr (\<lparr>lr_found_error = False, failing_line = None, failing_content = None,
           last_successful_line = Some (total_lines t),
           lr_steps = sts @ map (\<lambda>m. mk_line_step (m - s + 1) m
                     (orc (hist @ map (create_partial_by_line t) [i..m - 1])
                        (create_partial_by_line t m))) [i..total_lines t],
           lr_error_result = None, last_successful_result = None, lr_template = Some t,
           context_before = [], context_after = []\<rparr>,
          hist @ map (create_partial_by_line t) [i..total_lines t])"
  using assms
proof (induction "nat (total_lines t + 1 - i)" arbitrary: i lst lres0 sts hist)
  case 0
  then have "[i..total_lines t] = []" by simp
  then show ?case by (simp add: line_step_loop.simps)
next
  case (Suc n)
  define N where "N = total_lines t"
  have iN: "i \<le> N" using Suc.hyps(2) by (simp add: N_def)
  have l: "[i..N] = i # [i + 1..N]" using iN by (simp add: upto_rec1)
  have p: "success (orc hist (create_partial_by_line t i))"
    using Suc.prems [of i] iN by (simp add: N_def)
  have n: "n = nat (total_lines t + 1 - (i + 1))" using Suc.hyps(2) by simp
  have IH: "line_step_loop orc t s [i + 1..N] i (Some (orc hist (create_partial_by_line t i)))
      (sts @ [mk_line_step (i - s + 1) i (orc hist (create_partial_by_line t i))])
      (hist @ [create_partial_by_line t i]) =
     Inr (\<lparr>lr_found_error = False, failing_line = None, failing_content = None,
           last_successful_line = Some N,
           lr_steps = (sts @ [mk_line_step (i - s + 1) i (orc hist (create_partial_by_line t i))]) @
                   map (\<lambda>m. mk_line_step (m - s + 1) m
                     (orc ((hist @ [create_partial_by_line t i]) @
                            map (create_partial_by_line t) [i + 1..m - 1])
                        (create_partial_by_line t m))) [i + 1..N],
           lr_error_result = None, last_successful_result = None, lr_template = Some t,
           context_before = [], context_after = []\<rparr>,
          (hist @ [create_partial_by_line t i]) @ map (create_partial_by_line t) [i + 1..N])"
    unfolding N_def
  proof (rule Suc.hyps(1) [OF n])
    show "success (orc ((hist @ [create_partial_by_line t i]) @
             map (create_partial_by_line t) [i + 1..m - 1]) (create_partial_by_line t m))"
      if "i + 1 \<le> m" "m \<le> total_lines t" for m
      using Suc.prems [of m] that by (simp add: upto_rec1 [of i])
  qed
  show ?case
    unfolding N_def [symmetric] l line_step_loop_pass [of orc hist t i, OF p] IH
    using iN upto_shift_hist [of i N
        "\<lambda>h m. mk_line_step (m - s + 1) m (orc h (create_partial_by_line t m))"
        hist "create_partial_by_line t"]
    by simp
qed

text \<open>
  C8. The linear searchers probe the cutoffs one by one from the starting unit or line on
  and record one step per probe. At the first cutoff \<open>j\<close> whose probe fails they stop and
  return \<open>found_error = True\<close> with \<open>j\<close> as the failing index and the steps for the cutoffs
  from the start to \<open>j\<close>; when every probe up to the end succeeds they return
  \<open>found_error = False\<close> with the last unit index \<open>len(blocks) - 1\<close>, or the last line
  \<open>total_lines\<close>, as the last successful one. The renderer may answer differently at each
  call: the probe for cutoff \<open>m\<close> is asked after the texts for the cutoffs before it.
  The start is the first unit (0) or line (1) or a later one.
\<close>

theorem linear_search_stops_at_first_failure:
  "(blocks t \<noteq> [] \<and> 0 \<le> start_from \<longrightarrow>
      (\<forall>j. start_from \<le> j \<and> j < int (length (blocks t)) \<and>
          (\<forall>m. start_from \<le> m \<and> m < j \<longrightarrow>
             success (orc (hist @ map (block_probe t) [start_from..m - 1]) (block_probe t m))) \<and>
          \<not> success (orc (hist @ map (block_probe t) [start_from..j - 1]) (block_probe t j)) \<longrightarrow>
          (\<exists>r. step_search orc hist t start_from =
                 Inr (r, hist @ map (block_probe t) [start_from..j]) \<and>
               found_error r \<and> failing_block_index r = Some j \<and>
               failing_block r = Some (blocks t ! nat j) \<and>
               last_successful_block_index r = (if start_from < j then Some (j - 1) else None) \<and>
               map block_index (steps r) = map Some [start_from..j] \<and>
               map step_number (steps r) = map (\<lambda>m. m - start_from + 1) [start_from..j] \<and>
               map result (steps r) =
                 map (\<lambda>m. orc (hist @ map (block_probe t) [start_from..m - 1]) (block_probe t m))
                   [start_from..j])) \<and>
      ((\<forall>m. start_from \<le> m \<and> m < int (length (blocks t)) \<longrightarrow>
          success (orc (hist @ map (block_probe t) [start_from..m - 1]) (block_probe t m))) \<longrightarrow>
          (\<exists>r. step_search orc hist t start_from =
                 Inr (r, hist @ map (block_probe t) [start_from..int (length (blocks t)) - 1]) \<and>
               \<not> found_error r \<and>
               last_successful_block_index r = Some (int (length (blocks t)) - 1) \<and>
               map block_index (steps r) = map Some [start_from..int (length (blocks t)) - 1]))) \<and>
   (total_lines t \<noteq> 0 \<and> 1 \<le> start \<longrightarrow>
      (\<forall>j. start \<le> j \<and> j \<le> total_lines t \<and>
          (\<forall>m. start \<le> m \<and> m < j \<longrightarrow>
             success (orc (hist @ map (create_partial_by_line t) [start..m - 1])
                        (create_partial_by_line t m))) \<and>
          \<not> success (orc (hist @ map (create_partial_by_line t) [start..j - 1])
                        (create_partial_by_line t j)) \<longrightarrow>
          (\<exists>r. line_step_search orc hist t start =
                 Inr (r, hist @ map (create_partial_by_line t) [start..j]) \<and>
               lr_found_error r \<and> failing_line r = Some j \<and>
               last_successful_line r = (if start < j then Some (j - 1) else None) \<and>
               map line_number (lr_steps r) = map Some [start..j] \<and>
               map ls_step_number (lr_steps r) = map (\<lambda>m. m - start + 1) [start..j] \<and>
               map ls_result (lr_steps r) =
                 map (\<lambda>m. orc (hist @ map (create_partial_by_line t) [start..m - 1])
                            (create_partial_by_line t m)) [start..j])) \<and>
      ((\<forall>m. start \<le> m \<and> m \<le> total_lines t \<longrightarrow>
          success (orc (hist @ map (create_partial_by_line t) [start..m - 1])
                     (create_partial_by_line t m))) \<longrightarrow>
          (\<exists>r. line_step_search orc hist t start =
                 Inr (r, hist @ map (create_partial_by_line t) [start..total_lines t]) \<and>
               \<not> lr_found_error r \<and> last_successful_line r = Some (total_lines t) \<and>
               map line_number (lr_steps r) = map Some [start..total_lines t])))"
proof (intro conjI impI allI)
  fix j
  assume a: "blocks t \<noteq> [] \<and> 0 \<le> start_from"
    and b: "start_from \<le> j \<and> j < int (length (blocks t)) \<and>
          (\<forall>m. start_from \<le> m \<and> m < j \<longrightarrow>
             success (orc (hist @ map (block_probe t) [start_from..m - 1]) (block_probe t m))) \<and>
          \<not> success (orc (hist @ map (block_probe t) [start_from..j - 1]) (block_probe t j))"
  show "\<exists>r. step_search orc hist t start_from =
                 Inr (r, hist @ map (block_probe t) [start_from..j]) \<and>
               found_error r \<and> failing_block_index r = Some j \<and>
               failing_block r = Some (blocks t ! nat j) \<and>
               last_successful_block_index r = (if start_from < j then Some (j - 1) else None) \<and>
               map block_index (steps r) = map Some [start_from..j] \<and>
               map step_number (steps r) = map (\<lambda>m. m - start_from + 1) [start_from..j] \<and>
               map result (steps r) =
                 map (\<lambda>m. orc (hist @ map (block_probe t) [start_from..m - 1]) (block_probe t m))
                   [start_from..j]"
    using a b
      step_loop_stops_at_first_failure [of start_from j t orc hist start_from "- 1" "[]"]
    by (simp add: step_search_def py_range_def mk_step_def o_def)
next
  assume a: "blocks t \<noteq> [] \<and> 0 \<le> start_from"
    and b: "\<forall>m. start_from \<le> m \<and> m < int (length (blocks t)) \<longrightarrow>
          success (orc (hist @ map (block_probe t) [start_from..m - 1]) (block_probe t m))"
  show "\<exists>r. step_search orc hist t start_from =
                 Inr (r, hist @ map (block_probe t) [start_from..int (length (blocks t)) - 1]) \<and>
               \<not> found_error r \<and>
               last_successful_block_index r = Some (int (length (blocks t)) - 1) \<and>
               map block_index (steps r) = map Some [start_from..int (length (blocks t)) - 1]"
    using a b step_loop_all_pass [of start_from t orc hist start_from "- 1" "[]"]
    by (simp add: step_search_def py_range_def mk_step_def o_def)
next
  fix j
  assume a: "total_lines t \<noteq> 0 \<and> 1 \<le> start"
    and b: "start \<le> j \<and> j \<le> total_lines t \<and>
          (\<forall>m. start \<le> m \<and> m < j \<longrightarrow>
             success (orc (hist @ map (create_partial_by_line t) [start..m - 1])
                        (create_partial_by_line t m))) \<and>
          \<not> success (orc (hist @ map (create_partial_by_line t) [start..j - 1])
                        (create_partial_by_line t j))"
  have "\<exists>fc before after lres.
     line_context t j = Inr (fc, before, after) \<and>
     line_step_loop orc t start [start..total_lines t] 0 None [] hist =
     Inr (\<lparr>lr_found_error = True, failing_line = Some j, failing_content = Some fc,
           last_successful_line =
             (if start < j then Some (j - 1) else if (0::int) > 0 then Some 0 else None),
           lr_steps = [] @ map (\<lambda>m. mk_line_step (m - start + 1) m
                     (orc (hist @ map (create_partial_by_line t) [start..m - 1])
                        (create_partial_by_line t m))) [start..j],
           lr_error_result = Some (orc (hist @ map (create_partial_by_line t) [start..j - 1])
                                    (create_partial_by_line t j)),
           last_successful_result = lres, lr_template = Some t,
           context_before = before, context_after = after\<rparr>,
          hist @ map (create_partial_by_line t) [start..j])"
    by (rule line_step_loop_stops_at_first_failure) (use a b in simp_all)
  then show "\<exists>r. line_step_search orc hist t start =
                 Inr (r, hist @ map (create_partial_by_line t) [start..j]) \<and>
               lr_found_error r \<and> failing_line r = Some j \<and>
               last_successful_line r = (if start < j then Some (j - 1) else None) \<and>
               map line_number (lr_steps r) = map Some [start..j] \<and>
               map ls_step_number (lr_steps r) = map (\<lambda>m. m - start + 1) [start..j] \<and>
               map ls_result (lr_steps r) =
                 map (\<lambda>m. orc (hist @ map (create_partial_by_line t) [start..m - 1])
                            (create_partial_by_line t m)) [start..j]"
    using a by (auto simp add: line_step_search_def py_range_def mk_line_step_def o_def)
next
  assume a: "total_lines t \<noteq> 0 \<and> 1 \<le> start"
    and b: "\<forall>m. start \<le> m \<and> m \<le> total_lines t \<longrightarrow>
          success (orc (hist @ map (create_partial_by_line t) [start..m - 1])
                     (create_partial_by_line t m))"
  show "\<exists>r. line_step_search orc hist t start =
                 Inr (r, hist @ map (create_partial_by_line t) [start..total_lines t]) \<and>
               \<not> lr_found_error r \<and> last_successful_line r = Some (total_lines t) \<and>
               map line_number (lr_steps r) = map Some [start..total_lines t]"
    using a b line_step_loop_all_pass [of start t orc hist start 0 None "[]"]
    by (simp add: line_step_search_def py_range_def mk_line_step_def o_def)
qed

lemma demo_renderer_block_probe:
  "0 \<le> m \<Longrightarrow> m \<le> 2 \<Longrightarrow> success (demo_renderer h (block_probe demo_template m)) = (m < 1)"
  using demo_renderer_block [of m h] by (simp add: execute_up_to_block_eq)

lemma demo_renderer_line_probe:
  "1 \<le> m \<Longrightarrow> m \<le> 3 \<Longrightarrow>
   success (demo_renderer h (create_partial_by_line demo_template m)) = (m < 2)"
  using demo_renderer_line [of m h] by (simp add: execute_up_to_line_eq)

lemma ok_renderer_success: "success (ok_renderer h txt)"
  by (simp add: ok_renderer_def)

lemma demo_sizes:
  "blocks demo_template \<noteq> []" "int (length (blocks demo_template)) = 3"
  "total_lines demo_template = 3"
  by (simp_all add: demo_blocks demo_total_lines)

text \<open>
  On the sample document the first renderer stops both linear searchers at the second
  cutoff, after two probes; with the renderer that accepts everything they run to the end.
\<close>

theorem linear_search_stops_at_first_failure_witness:
  "(\<exists>r. step_search demo_renderer [] demo_template 0 =
          Inr (r, map (block_probe demo_template) [0..1]) \<and>
        found_error r \<and> failing_block_index r = Some 1 \<and>
        last_successful_block_index r = Some 0) \<and>
   (\<exists>r. step_search ok_renderer [] demo_template 0 =
          Inr (r, map (block_probe demo_template) [0..2]) \<and>
        \<not> found_error r \<and> last_successful_block_index r = Some 2) \<and>
   (\<exists>r. line_step_search demo_renderer [] demo_template 1 =
          Inr (r, map (create_partial_by_line demo_template) [1..2]) \<and>
        lr_found_error r \<and> failing_line r = Some 2 \<and> last_successful_line r = Some 1) \<and>
   (\<exists>r. line_step_search ok_renderer [] demo_template 1 =
          Inr (r, map (create_partial_by_line demo_template) [1..3]) \<and>
        \<not> lr_found_error r \<and> last_successful_line r = Some 3)"
proof -
  note bad = linear_search_stops_at_first_failure [of demo_template 0 demo_renderer "[]" 1]
  note ok = linear_search_stops_at_first_failure [of demo_template 0 ok_renderer "[]" 1]
  have A: "blocks demo_template \<noteq> [] \<and> (0::int) \<le> 0" by (simp add: demo_sizes)
  have A': "total_lines demo_template \<noteq> 0 \<and> (1::int) \<le> 1" by (simp add: demo_sizes)
  have B: "(0::int) \<le> 1 \<and> 1 < int (length (blocks demo_template)) \<and>
      (\<forall>m. 0 \<le> m \<and> m < 1 \<longrightarrow>
         success (demo_renderer ([] @ map (block_probe demo_template) [0..m - 1])
                    (block_probe demo_template m))) \<and>
      \<not> success (demo_renderer ([] @ map (block_probe demo_template) [0..1 - 1])
                    (block_probe demo_template 1))"
    by (simp add: demo_sizes demo_renderer_block_probe)
  have B': "(1::int) \<le> 2 \<and> 2 \<le> total_lines demo_template \<and>
      (\<forall>m. 1 \<le> m \<and> m < 2 \<longrightarrow>
         success (demo_renderer ([] @ map (create_partial_by_line demo_template) [1..m - 1])
                    (create_partial_by_line demo_template m))) \<and>
      \<not> success (demo_renderer ([] @ map (create_partial_by_line demo_template) [1..2 - 1])
                    (create_partial_by_line demo_template 2))"
    by (simp add: demo_sizes demo_renderer_line_probe)
  have D: "\<forall>m. 0 \<le> m \<and> m < int (length (blocks demo_template)) \<longrightarrow>
      success (ok_renderer ([] @ map (block_probe demo_template) [0..m - 1])
                 (block_probe demo_template m))"
    by (simp add: ok_renderer_success)
  have D': "\<forall>m. 1 \<le> m \<and> m \<le> total_lines demo_template \<longrightarrow>
      success (ok_renderer ([] @ map (create_partial_by_line demo_template) [1..m - 1])
                 (create_partial_by_line demo_template m))"
    by (simp add: ok_renderer_success)
  have 1: "\<exists>r. step_search demo_renderer [] demo_template 0 =
          Inr (r, [] @ map (block_probe demo_template) [0..1]) \<and>
        found_error r \<and> failing_block_index r = Some 1 \<and>
        last_successful_block_index r = (if (0::int) < 1 then Some (1 - 1) else None)"
    using bad [THEN conjunct1, THEN mp, OF A, THEN conjunct1, THEN spec, THEN mp, OF B]
    by blast
  have 2: "\<exists>r. step_search ok_renderer [] demo_template 0 =
          Inr (r, [] @ map (block_probe demo_template) [0..int (length (blocks demo_template)) - 1]) \<and>
        \<not> found_error r \<and>
        last_successful_block_index r = Some (int (length (blocks demo_template)) - 1)"
    using ok [THEN conjunct1, THEN mp, OF A, THEN conjunct2, THEN mp, OF D]
    by blast
  have 3: "\<exists>r. line_step_search demo_renderer [] demo_template 1 =
          Inr (r, [] @ map (create_partial_by_line demo_template) [1..2]) \<and>
        lr_found_error r \<and> failing_line r = Some 2 \<and>
        last_successful_line r = (if (1::int) < 2 then Some (2 - 1) else None)"
    using bad [THEN conjunct2, THEN mp, OF A', THEN conjunct1, THEN spec, THEN mp, OF B']
    by blast
  have 4: "\<exists>r. line_step_search ok_renderer [] demo_template 1 =
          Inr (r, [] @ map (create_partial_by_line demo_template) [1..total_lines demo_template]) \<and>
        \<not> lr_found_error r \<and> last_successful_line r = Some (total_lines demo_template)"
    using ok [THEN conjunct2, THEN mp, OF A', THEN conjunct2, THEN mp, OF D']
    by blast
  show ?thesis
    using 1 2 3 4 by (simp add: demo_sizes)
qed

lemma demo_ok_line_bisection:
  "line_binary_search ok_renderer [] demo_template =
     Inr (no_line_error demo_template
            [mk_line_step 1 2 (ok_renderer [] (create_partial_by_line demo_template 2)),
             mk_line_step 2 3
               (ok_renderer [create_partial_by_line demo_template 2]
                  (create_partial_by_line demo_template 3))],
          [create_partial_by_line demo_template 2, create_partial_by_line demo_template 3])"
proof -
  have 1: "line_binary_loop ok_renderer demo_template 1 3 0 None None [] 0 [] =
      line_binary_loop ok_renderer demo_template 3 3 2 None
        (Some (ok_renderer [] (create_partial_by_line demo_template 2)))
        [mk_line_step 1 2 (ok_renderer [] (create_partial_by_line demo_template 2))] 1
        [create_partial_by_line demo_template 2]"
    using line_binary_loop_pass [of 1 3 ok_renderer "[]" demo_template
        "ok_renderer [] (create_partial_by_line demo_template 2)"
        "[create_partial_by_line demo_template 2]" 0 None None "[]" 0]
    by (simp add: execute_up_to_line_eq ok_renderer_success)
  have 2: "line_binary_loop ok_renderer demo_template 3 3 2 None
        (Some (ok_renderer [] (create_partial_by_line demo_template 2)))
        [mk_line_step 1 2 (ok_renderer [] (create_partial_by_line demo_template 2))] 1
        [create_partial_by_line demo_template 2] =
      line_binary_loop ok_renderer demo_template 4 3 3 None
        (Some (ok_renderer [create_partial_by_line demo_template 2]
                 (create_partial_by_line demo_template 3)))
        [mk_line_step 1 2 (ok_renderer [] (create_partial_by_line demo_template 2)),
         mk_line_step 2 3 (ok_renderer [create_partial_by_line demo_template 2]
                 (create_partial_by_line demo_template 3))] 2
        [create_partial_by_line demo_template 2, create_partial_by_line demo_template 3]"
    using line_binary_loop_pass [of 3 3 ok_renderer "[create_partial_by_line demo_template 2]"
        demo_template
        "ok_renderer [create_partial_by_line demo_template 2]
           (create_partial_by_line demo_template 3)"
        "[create_partial_by_line demo_template 2, create_partial_by_line demo_template 3]"
        2 None "Some (ok_renderer [] (create_partial_by_line demo_template 2))"
        "[mk_line_step 1 2 (ok_renderer [] (create_partial_by_line demo_template 2))]" 1]
    by (simp add: execute_up_to_line_eq ok_renderer_success)
  show ?thesis
    by (simp add: line_binary_search_def demo_total_lines 1 2 line_binary_loop_done)
qed

lemma full_only_probes:
  "\<not> success (full_only_renderer h (create_partial_by_line demo_template 1))"
  "\<not> success (full_only_renderer h (create_partial_by_line demo_template 2))"
  by (simp_all add: full_only_renderer_def demo_line_probes) (simp_all add: demo_text_def py_def)

lemma full_only_full:
  "success (full_only_renderer h (original_content demo_template))"
  by (simp add: full_only_renderer_def demo_template_def parse_file_def)

lemma demo_line_context:
  "line_context demo_template 1 = Inr (py ''a: 1'', [], [py ''bad'', py ''c: 3''])"
  by (simp add: line_context_def demo_template_def parse_file_def demo_lines_False
        py_range_def py_index_def upto_rec1 Let_def)

lemma demo_full_only_line_bisection:
  "line_binary_search full_only_renderer [] demo_template =
     Inr (\<lparr>lr_found_error = True, failing_line = Some 1, failing_content = Some (py ''a: 1''),
           last_successful_line = None,
           lr_steps =
             [mk_line_step 1 2 (full_only_renderer [] (create_partial_by_line demo_template 2)),
              mk_line_step 2 1
                (full_only_renderer [create_partial_by_line demo_template 2]
                   (create_partial_by_line demo_template 1))],
           lr_error_result =
             Some (full_only_renderer
                     [create_partial_by_line demo_template 2,
                      create_partial_by_line demo_template 1]
                     (create_partial_by_line demo_template 1)),
           last_successful_result = None, lr_template = Some demo_template,
           context_before = [], context_after = [py ''bad'', py ''c: 3'']\<rparr>,
          [create_partial_by_line demo_template 2, create_partial_by_line demo_template 1,
           create_partial_by_line demo_template 1])"
proof -
  have 1: "line_binary_loop full_only_renderer demo_template 1 3 0 None None [] 0 [] =
      line_binary_loop full_only_renderer demo_template 1 1 0 (Some 2) None
        [mk_line_step 1 2 (full_only_renderer [] (create_partial_by_line demo_template 2))] 1
        [create_partial_by_line demo_template 2]"
    using line_binary_loop_fail [of 1 3 full_only_renderer "[]" demo_template
        "full_only_renderer [] (create_partial_by_line demo_template 2)"
        "[create_partial_by_line demo_template 2]" 0 None None "[]" 0]
    by (simp add: execute_up_to_line_eq full_only_probes)
  have 2: "line_binary_loop full_only_renderer demo_template 1 1 0 (Some 2) None
        [mk_line_step 1 2 (full_only_renderer [] (create_partial_by_line demo_template 2))] 1
        [create_partial_by_line demo_template 2] =
      line_binary_loop full_only_renderer demo_template 1 0 0 (Some 1) None
        [mk_line_step 1 2 (full_only_renderer [] (create_partial_by_line demo_template 2)),
         mk_line_step 2 1 (full_only_renderer [create_partial_by_line demo_template 2]
                 (create_partial_by_line demo_template 1))] 2
        [create_partial_by_line demo_template 2, create_partial_by_line demo_template 1]"
    using line_binary_loop_fail [of 1 1 full_only_renderer "[create_partial_by_line demo_template 2]"
        demo_template
        "full_only_renderer [create_partial_by_line demo_template 2]
           (create_partial_by_line demo_template 1)"
        "[create_partial_by_line demo_template 2, create_partial_by_line demo_template 1]"
        0 "Some 2" None
        "[mk_line_step 1 2 (full_only_renderer [] (create_partial_by_line demo_template 2))]" 1]
    by (simp add: execute_up_to_line_eq full_only_probes)
  show ?thesis
    by (simp add: line_binary_search_def demo_total_lines 1 2 line_binary_loop_done
          demo_line_context execute_up_to_line_eq)
qed

text \<open>
  C4 holds for the block-granularity bisection and not for the line-granularity one, which
  never renders the unmodified document and so has nothing to stop on. On the three-line
  sample document, with a renderer that accepts the full text and nothing else, the
  full-document evaluation succeeds and the line bisection still reports
  \<open>found_error = True\<close> with failing line 1, after two steps and three probes. With the
  renderer that accepts every text it reports \<open>found_error = False\<close>, but only after two
  probes.
\<close>

theorem line_bisection_has_no_short_circuit:
  "success (fst (validate_full_template full_only_renderer [] demo_template)) \<and>
   line_binary_search full_only_renderer [] demo_template =
     Inr (\<lparr>lr_found_error = True, failing_line = Some 1, failing_content = Some (py ''a: 1''),
           last_successful_line = None,
           lr_steps =
             [mk_line_step 1 2 (full_only_renderer [] (create_partial_by_line demo_template 2)),
              mk_line_step 2 1
                (full_only_renderer [create_partial_by_line demo_template 2]
                   (create_partial_by_line demo_template 1))],
           lr_error_result =
             Some (full_only_renderer
                     [create_partial_by_line demo_template 2,
                      create_partial_by_line demo_template 1]
                     (create_partial_by_line demo_template 1)),
           last_successful_result = None, lr_template = Some demo_template,
           context_before = [], context_after = [py ''bad'', py ''c: 3'']\<rparr>,
          [create_partial_by_line demo_template 2, create_partial_by_line demo_template 1,
           create_partial_by_line demo_template 1]) \<and>
   success (fst (validate_full_template ok_renderer [] demo_template)) \<and>
   line_binary_search ok_renderer [] demo_template =
     Inr (no_line_error demo_template
            [mk_line_step 1 2 (ok_renderer [] (create_partial_by_line demo_template 2)),
             mk_line_step 2 3
               (ok_renderer [create_partial_by_line demo_template 2]
                  (create_partial_by_line demo_template 3))],
          [create_partial_by_line demo_template 2, create_partial_by_line demo_template 3])"
  by (simp add: demo_full_only_line_bisection demo_ok_line_bisection validate_full_template_def
        run_template_def ok_renderer_success full_only_full)

text \<open>
  The block-granularity bisection does stop: when the unmodified document renders
  successfully it returns \<open>found_error = False\<close> with no step, after that one probe (and
  after none when the document has no unit).
\<close>

lemma block_bisection_short_circuits:
  assumes "success (fst (validate_full_template orc hist t))"
  shows "\<exists>r. binary_search orc hist t =
              Inr (r, if blocks t = [] then hist else hist @ [original_content t]) \<and>
           \<not> found_error r \<and> steps r = []"
proof (cases "blocks t = []")
  case True
  then show ?thesis by (simp add: binary_search_def no_error_result_def)
next
  case False
  then show ?thesis
    using binary_search_full_ok [OF False assms] by (simp add: no_error_result_def)
qed

section \<open>Properties of the block model\<close>

lemma detect_block_type_first_match: "detect_block_type line = spec_classify line"
  by (simp add: detect_block_type_def spec_classify_def precedence_def Let_def)

text \<open>What a unit records of its line, apart from the nesting level.\<close>

lemma parse_loop_units:
  "map (\<lambda>b. (start_line b, end_line b, content b, block_type b, file_path b))
     (parse_loop fp ls (int c) nest bs) =
   map (\<lambda>b. (start_line b, end_line b, content b, block_type b, file_path b)) bs @
   map (\<lambda>(i, line). (int i, int i, line, detect_block_type line, Some fp))
     (filter (\<lambda>(i, line). strip line \<noteq> []) (enumerate c ls))"
proof (induction ls arbitrary: c nest bs)
  case Nil
  show ?case by simp
next
  case (Cons line ls)
  have s: "int c + 1 = int (Suc c)" by simp
  show ?case
    unfolding parse_loop.simps s Let_def
    by (simp add: Cons.IH mk_block_def del: of_nat_Suc)
qed


lemma running_depth_snoc:
  "running_depth (bs @ [b]) = depth_step (block_type b) (running_depth bs)"
  by (simp add: running_depth_def)

lemma running_depth_nonneg: "0 \<le> running_depth bs"
  by (induction bs rule: rev_induct) (simp_all add: running_depth_snoc depth_step_def running_depth_def)

lemma levels_snoc:
  assumes "\<forall>k < length bs. nesting_level (bs ! k) =
             expected_level (block_type (bs ! k)) (running_depth (take k bs))"
      and "nesting_level b = expected_level (block_type b) (running_depth bs)"
  shows "\<forall>k < length (bs @ [b]). nesting_level ((bs @ [b]) ! k) =
           expected_level (block_type ((bs @ [b]) ! k)) (running_depth (take k (bs @ [b])))"
proof (intro allI impI)
  fix k assume "k < length (bs @ [b])"
  then consider "k < length bs" | "k = length bs" by fastforce
  then show "nesting_level ((bs @ [b]) ! k) =
           expected_level (block_type ((bs @ [b]) ! k)) (running_depth (take k (bs @ [b])))"
  proof cases
    case 1
    then show ?thesis using assms(1) by (simp add: nth_append)
  next
    case 2
    then show ?thesis using assms(2) by simp
  qed
qed

lemma parse_loop_levels:
  assumes "\<forall>k < length bs. nesting_level (bs ! k) =
             expected_level (block_type (bs ! k)) (running_depth (take k bs))"
      and "nest = running_depth bs"
  shows "\<forall>k < length (parse_loop fp ls cur nest bs).
           nesting_level (parse_loop fp ls cur nest bs ! k) =
           expected_level (block_type (parse_loop fp ls cur nest bs ! k))
             (running_depth (take k (parse_loop fp ls cur nest bs)))"
  using assms
proof (induction ls arbitrary: cur nest bs)
  case Nil
  then show ?case by simp
next
  case (Cons line ls)
  show ?case
  proof (cases "strip line = []")
    case True
    then show ?thesis using Cons.IH [OF Cons.prems] by simp
  next
    case False
    define bt where "bt = detect_block_type line"
    consider (opn) "is_open bt" | (cls) "bt = END" | (cont) "bt = ELSE \<or> bt = ELSE_IF"
      | (other) "\<not> is_open bt" "bt \<noteq> END" "bt \<noteq> ELSE" "bt \<noteq> ELSE_IF"
      by blast
    then show ?thesis
    proof cases
      case opn
      define b where "b = mk_block bt line cur fp nest"
      have e: "parse_loop fp (line # ls) cur nest bs = parse_loop fp ls (cur + 1) (nest + 1) (bs @ [b])"
        using False opn by (simp add: bt_def b_def is_open_def Let_def)
      have l: "nesting_level b = expected_level (block_type b) (running_depth bs)"
        using opn Cons.prems(2)
        by (auto simp add: b_def mk_block_def expected_level_def is_open_def is_close_def
              is_continuation_def)
      have d: "nest + 1 = running_depth (bs @ [b])"
        using opn Cons.prems(2) by (simp add: running_depth_snoc depth_step_def b_def mk_block_def)
      show ?thesis
        unfolding e by (rule Cons.IH [OF levels_snoc [OF Cons.prems(1) l] d])
    next
      case cls
      define b where "b = mk_block bt line cur fp (max 0 (nest - 1))"
      have e: "parse_loop fp (line # ls) cur nest bs =
          parse_loop fp ls (cur + 1) (max 0 (nest - 1)) (bs @ [b])"
        using False cls by (simp add: bt_def b_def Let_def)
      have l: "nesting_level b = expected_level (block_type b) (running_depth bs)"
        using cls Cons.prems(2)
        by (simp add: b_def mk_block_def expected_level_def is_close_def)
      have d: "max 0 (nest - 1) = running_depth (bs @ [b])"
        using cls Cons.prems(2)
        by (simp add: running_depth_snoc depth_step_def b_def mk_block_def is_open_def is_close_def)
      show ?thesis
        unfolding e by (rule Cons.IH [OF levels_snoc [OF Cons.prems(1) l] d])
    next
      case cont
      define b where "b = mk_block bt line cur fp (max 0 (nest - 1))"
      have e: "parse_loop fp (line # ls) cur nest bs = parse_loop fp ls (cur + 1) nest (bs @ [b])"
        using False cont by (auto simp add: bt_def b_def Let_def)
      have l: "nesting_level b = expected_level (block_type b) (running_depth bs)"
        using cont Cons.prems(2)
        by (auto simp add: b_def mk_block_def expected_level_def is_continuation_def)
      have d: "nest = running_depth (bs @ [b])"
        using cont Cons.prems(2)
        by (auto simp add: running_depth_snoc depth_step_def b_def mk_block_def is_open_def
              is_close_def)
      show ?thesis
        unfolding e by (rule Cons.IH [OF levels_snoc [OF Cons.prems(1) l] d])
    next
      case other
      define b where "b = mk_block bt line cur fp nest"
      have e: "parse_loop fp (line # ls) cur nest bs = parse_loop fp ls (cur + 1) nest (bs @ [b])"
        using False other by (simp add: bt_def b_def Let_def is_open_def)
      have l: "nesting_level b = expected_level (block_type b) (running_depth bs)"
        using other Cons.prems(2)
        by (simp add: b_def mk_block_def expected_level_def is_continuation_def is_close_def)
      have d: "nest = running_depth (bs @ [b])"
        using other Cons.prems(2)
        by (simp add: running_depth_snoc depth_step_def b_def mk_block_def is_close_def)
      show ?thesis
        unfolding e by (rule Cons.IH [OF levels_snoc [OF Cons.prems(1) l] d])
    qed
  qed
qed

lemma running_depth_balanced:
  assumes "\<And>j. j \<le> length bs \<Longrightarrow>
             length (filter (\<lambda>b. is_close (block_type b)) (take j bs)) \<le>
             length (filter (\<lambda>b. is_open (block_type b)) (take j bs))"
  shows "running_depth bs =
           int (length (filter (\<lambda>b. is_open (block_type b)) bs)) -
           int (length (filter (\<lambda>b. is_close (block_type b)) bs))"
  using assms
proof (induction bs rule: rev_induct)
  case Nil
  show ?case by (simp add: running_depth_def)
next
  case (snoc b bs)
  have IH: "running_depth bs =
           int (length (filter (\<lambda>b. is_open (block_type b)) bs)) -
           int (length (filter (\<lambda>b. is_close (block_type b)) bs))"
  proof (rule snoc.IH)
    fix j assume "j \<le> length bs"
    then show "length (filter (\<lambda>b. is_close (block_type b)) (take j bs)) \<le>
             length (filter (\<lambda>b. is_open (block_type b)) (take j bs))"
      using snoc.prems [of j] by simp
  qed
  have full: "length (filter (\<lambda>b. is_close (block_type b)) (bs @ [b])) \<le>
             length (filter (\<lambda>b. is_open (block_type b)) (bs @ [b]))"
    using snoc.prems [of "length (bs @ [b])"] by simp
  have excl: "\<not> (is_open (block_type b) \<and> is_close (block_type b))"
    by (auto simp: is_open_def is_close_def)
  show ?case
    using IH full excl by (auto simp add: running_depth_snoc depth_step_def)
qed


lemma if_end_blocks_eval:
  "if_end_blocks =
     [mk_block IF (py ''{{ if .X }}'' @ [10]) 1 (py ''t.yaml'') 0,
      mk_block END (py ''{{ end }}'' @ [10]) 2 (py ''t.yaml'') 0]"
proof -
  have l: "splitlines True if_end_text = [py ''{{ if .X }}'' @ [10], py ''{{ end }}'' @ [10]]"
    by (simp add: if_end_text_def strs)
  show ?thesis
    unfolding if_end_blocks_def parse_content_def l
    by simp (simp add: detect_block_type_def pats strs)
qed

text \<open>
  C6. Parsing is a total function of the text: the units it returns are, in order, one
  for each non-blank line of the text and none for a blank line; the unit of line \<open>i\<close> has
  \<open>start_line = end_line = i\<close>, holds the line, and its kind is the first match in the
  order comment, else-if, else, end, if, range, with, define, template, include,
  expression, with plain content when nothing matches. The empty text has no unit and no
  line.
\<close>

theorem parse_is_one_unit_per_nonblank_line:
  "map (\<lambda>b. (start_line b, end_line b, content b, block_type b)) (parse_content txt fp) =
     map (\<lambda>(i, line). (int i, int i, line, spec_classify line))
       (filter (\<lambda>(i, line). strip line \<noteq> []) (enumerate 1 (splitlines True txt))) \<and>
   detect_block_type line = spec_classify line \<and>
   parse_content [] fp = [] \<and> total_lines (parse_file fp []) = 0"
proof -
  have "map (\<lambda>b. (start_line b, end_line b, content b, block_type b, file_path b))
          (parse_content txt fp) =
        map (\<lambda>(i, line). (int i, int i, line, detect_block_type line, Some fp))
          (filter (\<lambda>(i, line). strip line \<noteq> []) (enumerate 1 (splitlines True txt)))"
    using parse_loop_units [of fp "splitlines True txt" 1 0 "[]"]
    by (simp add: parse_content_def)
  then have "map (\<lambda>(a, b, c, d, e). (a, b, c, d))
          (map (\<lambda>b. (start_line b, end_line b, content b, block_type b, file_path b))
             (parse_content txt fp)) =
        map (\<lambda>(a, b, c, d, e). (a, b, c, d))
          (map (\<lambda>(i, line). (int i, int i, line, detect_block_type line, Some fp))
             (filter (\<lambda>(i, line). strip line \<noteq> []) (enumerate 1 (splitlines True txt))))"
    by simp
  then have "map (\<lambda>b. (start_line b, end_line b, content b, block_type b)) (parse_content txt fp) =
     map (\<lambda>(i, line). (int i, int i, line, spec_classify line))
       (filter (\<lambda>(i, line). strip line \<noteq> []) (enumerate 1 (splitlines True txt)))"
    by (simp add: o_def case_prod_unfold detect_block_type_first_match)
  then show ?thesis
    by (simp add: detect_block_type_first_match parse_content_def total_lines_def parse_file_def)
qed

text \<open>
  C3, as stated, fails: in the document that opens a conditional on line 1 and closes it
  on line 2, the prefix made of unit 0 has one open and no close, so the clamped count is
  1, while unit 1, the close, records the level 0.
\<close>

theorem close_unit_is_recorded_below_the_count:
  "clamped_balance (take 1 if_end_blocks) = 1 \<and> nesting_level (if_end_blocks ! 1) = 0"
  by (simp add: if_end_blocks_eval clamped_balance_def mk_block_def is_open_def is_close_def)

text \<open>
  C3, amended. Every unit records the running depth of the units before it (opens raise it
  by one after they are recorded, closes lower it by one, not below zero), except that a
  control-close and a continuation record that depth minus one, not below zero: an open
  is recorded at the depth before its increment, its close at the depth after its
  decrement. The recorded level is never negative. As long as no prefix has more closes
  than opens, the running depth is the count of opens minus the count of closes.
\<close>

theorem nesting_level_is_running_depth:
  "(\<forall>k < length (parse_content txt fp).
      nesting_level (parse_content txt fp ! k) =
        expected_level (block_type (parse_content txt fp ! k))
          (running_depth (take k (parse_content txt fp))) \<and>
      0 \<le> nesting_level (parse_content txt fp ! k) \<and>
      ((\<forall>j \<le> k. length (filter (\<lambda>b. is_close (block_type b)) (take j (parse_content txt fp))) \<le>
                length (filter (\<lambda>b. is_open (block_type b)) (take j (parse_content txt fp)))) \<longrightarrow>
       running_depth (take k (parse_content txt fp)) =
         clamped_balance (take k (parse_content txt fp))))"
proof (intro allI impI conjI)
  fix k assume k: "k < length (parse_content txt fp)"
  define bs where "bs = parse_content txt fp"
  have lv: "\<forall>k < length bs. nesting_level (bs ! k) =
      expected_level (block_type (bs ! k)) (running_depth (take k bs))"
    unfolding bs_def parse_content_def
    by (rule parse_loop_levels) (simp_all add: running_depth_def)
  show l: "nesting_level (parse_content txt fp ! k) =
        expected_level (block_type (parse_content txt fp ! k))
          (running_depth (take k (parse_content txt fp)))"
    using lv k by (simp add: bs_def)
  show "0 \<le> nesting_level (parse_content txt fp ! k)"
    unfolding l using running_depth_nonneg [of "take k (parse_content txt fp)"]
    by (simp add: expected_level_def)
  assume b: "\<forall>j \<le> k. length (filter (\<lambda>b. is_close (block_type b)) (take j (parse_content txt fp))) \<le>
                length (filter (\<lambda>b. is_open (block_type b)) (take j (parse_content txt fp)))"
  have "running_depth (take k bs) =
           int (length (filter (\<lambda>b. is_open (block_type b)) (take k bs))) -
           int (length (filter (\<lambda>b. is_close (block_type b)) (take k bs)))"
  proof (rule running_depth_balanced)
    fix j assume "j \<le> length (take k bs)"
    then have "j \<le> k" by simp
    then have "j \<le> k" "take j (take k bs) = take j bs" by (simp_all add: min_absorb1)
    then show "length (filter (\<lambda>b. is_close (block_type b)) (take j (take k bs))) \<le>
             length (filter (\<lambda>b. is_open (block_type b)) (take j (take k bs)))"
      using b by (simp add: bs_def)
  qed
  moreover have "length (filter (\<lambda>b. is_close (block_type b)) (take k bs)) \<le>
             length (filter (\<lambda>b. is_open (block_type b)) (take k bs))"
    using b by (simp add: bs_def)
  ultimately show "running_depth (take k (parse_content txt fp)) =
         clamped_balance (take k (parse_content txt fp))"
    by (simp add: clamped_balance_def bs_def)
qed

text \<open>
  In the document that opens a conditional and closes it at once, the close is unit 1: the
  running depth before it is 1, equal to the count of opens minus closes, and it records
  the level 0.
\<close>

theorem nesting_level_is_running_depth_witness:
  "(1::nat) < length if_end_blocks \<and> nesting_level (if_end_blocks ! 1) = 0 \<and>
   running_depth (take 1 if_end_blocks) = 1 \<and> clamped_balance (take 1 if_end_blocks) = 1"
proof -
  note th = nesting_level_is_running_depth [of if_end_text "py ''t.yaml''",
      folded if_end_blocks_def, THEN spec, of 1, THEN mp]
  have k: "(1::nat) < length if_end_blocks" by (simp add: if_end_blocks_eval)
  have b: "\<forall>j \<le> 1. length (filter (\<lambda>b. is_close (block_type b)) (take j if_end_blocks)) \<le>
                length (filter (\<lambda>b. is_open (block_type b)) (take j if_end_blocks))"
  proof (intro allI impI)
    fix j :: nat assume "j \<le> 1"
    then have "j = 0 \<or> j = 1" by linarith
    then show "length (filter (\<lambda>b. is_close (block_type b)) (take j if_end_blocks)) \<le>
                length (filter (\<lambda>b. is_open (block_type b)) (take j if_end_blocks))"
      by (auto simp add: if_end_blocks_eval mk_block_def is_open_def is_close_def)
  qed
  have e: "expected_level (block_type (if_end_blocks ! 1)) 1 = 0"
    by (simp add: if_end_blocks_eval mk_block_def expected_level_def is_close_def)
  have c: "clamped_balance (take 1 if_end_blocks) = 1"
    by (simp add: if_end_blocks_eval clamped_balance_def mk_block_def is_open_def is_close_def)
  have d: "running_depth (take 1 if_end_blocks) = 1"
    using th [OF k] b c by simp
  show ?thesis
    using th [OF k] k c d e by simp
qed

section \<open>Properties of the text primitives\<close>

lemma splitlines_crlf:
  "splitlines k (13 # 10 # ds) = (if k then [13, 10] else []) # splitlines k ds"
  by simp

lemma splitlines_break:
  "is_linebreak c \<Longrightarrow> \<not> (c = 13 \<and> d = 10) \<Longrightarrow>
   splitlines k (c # d # ds) = (if k then [c] else []) # splitlines k (d # ds)"
  by auto

lemma splitlines_char:
  "\<not> is_linebreak c \<Longrightarrow>
   splitlines k (c # d # ds) =
     (c # hd (splitlines k (d # ds))) # tl (splitlines k (d # ds))"
proof -
  assume a: "\<not> is_linebreak c"
  then have "c \<noteq> 13" by (auto simp: is_linebreak_def)
  moreover have "splitlines k (d # ds) \<noteq> []" by (simp add: splitlines_Nil_iff)
  ultimately show ?thesis using a by (auto split: list.splits)
qed

lemma splitlines_cases:
  obtains (empty) "s = []"
  | (single) c where "s = [c]"
  | (crlf) ds where "s = 13 # 10 # ds"
  | (break) c d ds where "s = c # d # ds" "is_linebreak c" "\<not> (c = 13 \<and> d = 10)"
  | (char) c d ds where "s = c # d # ds" "\<not> is_linebreak c"
proof (cases s)
  case Nil
  then show ?thesis using empty by simp
next
  case (Cons c cs)
  show ?thesis
  proof (cases cs)
    case Nil
    then show ?thesis using Cons single by simp
  next
    case (Cons d ds)
    then have s: "s = c # d # ds" using \<open>s = c # cs\<close> by simp
    show ?thesis
    proof (cases "c = 13 \<and> d = 10")
      case True
      then show ?thesis using s crlf by simp
    next
      case False
      then show ?thesis using s break [of c d ds] char [of c d ds] by blast
    qed
  qed
qed

lemma splitlines_concat: "concat (splitlines True s) = s"
proof (induction s rule: length_induct)
  case (1 s)
  show ?case
  proof (cases s rule: splitlines_cases)
    case empty
    then show ?thesis by simp
  next
    case (single c)
    then show ?thesis by simp
  next
    case (crlf ds)
    then show ?thesis using 1 by (simp only: splitlines_crlf) simp
  next
    case (break c d ds)
    then show ?thesis using 1 by (simp only: splitlines_break [OF break(2,3)]) simp
  next
    case (char c d ds)
    have ne: "splitlines True (d # ds) \<noteq> []" by (simp add: splitlines_Nil_iff)
    have "concat (splitlines True (d # ds)) = d # ds" using 1 char(1) by simp
    then have "hd (splitlines True (d # ds)) @ concat (tl (splitlines True (d # ds))) = d # ds"
      using ne by (cases "splitlines True (d # ds)") simp_all
    then show ?thesis using char(1) by (simp only: splitlines_char [OF char(2)]) simp
  qed
qed

lemma splitlines_length: "length (splitlines True s) = length (splitlines False s)"
proof (induction s rule: length_induct)
  case (1 s)
  show ?case
  proof (cases s rule: splitlines_cases)
    case empty
    then show ?thesis by simp
  next
    case (single c)
    then show ?thesis by simp
  next
    case (crlf ds)
    then show ?thesis using 1 by (simp only: splitlines_crlf) simp
  next
    case (break c d ds)
    then show ?thesis using 1 by (simp only: splitlines_break [OF break(2,3)]) simp
  next
    case (char c d ds)
    have "length (splitlines True (d # ds)) = length (splitlines False (d # ds))"
      using 1 char(1) by simp
    then show ?thesis using char(1) by (simp only: splitlines_char [OF char(2)]) simp
  qed
qed

lemma linebreak_isspace: "is_linebreak c \<Longrightarrow> isspace c"
  by (auto simp: is_linebreak_def isspace_def)

text \<open>A line with its ending is the line without it followed by line-break characters.\<close>

lemma splitlines_bodies:
  "list_all2 (\<lambda>l b. \<exists>e. l = b @ e \<and> (\<forall>c \<in> set e. is_linebreak c))
     (splitlines True s) (splitlines False s)"
proof (induction s rule: length_induct)
  case (1 s)
  show ?case
  proof (cases s rule: splitlines_cases)
    case empty
    then show ?thesis by simp
  next
    case (single c)
    then show ?thesis by simp
  next
    case (crlf ds)
    have "list_all2 (\<lambda>l b. \<exists>e. l = b @ e \<and> (\<forall>c \<in> set e. is_linebreak c))
        (splitlines True ds) (splitlines False ds)"
      using 1 crlf by simp
    then show ?thesis unfolding crlf splitlines_crlf by (simp add: is_linebreak_def)
  next
    case (break c d ds)
    have "list_all2 (\<lambda>l b. \<exists>e. l = b @ e \<and> (\<forall>c \<in> set e. is_linebreak c))
        (splitlines True (d # ds)) (splitlines False (d # ds))"
      using 1 break(1) by simp
    then show ?thesis unfolding break(1) splitlines_break [OF break(2,3)] using break(2) by simp
  next
    case (char c d ds)
    have b: "list_all2 (\<lambda>l b. \<exists>e. l = b @ e \<and> (\<forall>c \<in> set e. is_linebreak c))
        (splitlines True (d # ds)) (splitlines False (d # ds))"
      using 1 char(1) by simp
    obtain l ls where t: "splitlines True (d # ds) = l # ls"
      by (cases "splitlines True (d # ds)") (simp_all add: splitlines_Nil_iff)
    obtain l' ls' where f: "splitlines False (d # ds) = l' # ls'"
      by (cases "splitlines False (d # ds)") (simp_all add: splitlines_Nil_iff)
    show ?thesis
      unfolding char(1) splitlines_char [OF char(2)] using b by (simp add: t f)
  qed
qed

lemma strip_Nil_iff: "strip s = [] \<longleftrightarrow> (\<forall>c \<in> set s. isspace c)"
proof
  assume "strip s = []"
  then have a: "\<forall>c \<in> set (dropWhile isspace s). isspace c"
    by (simp add: strip_def rstrip_def lstrip_def dropWhile_eq_Nil_conv)
  have "dropWhile isspace s = []"
  proof (rule ccontr)
    assume "dropWhile isspace s \<noteq> []"
    then have "\<not> isspace (hd (dropWhile isspace s))" "hd (dropWhile isspace s) \<in> set (dropWhile isspace s)"
      by (simp_all add: hd_dropWhile)
    then show False using a by blast
  qed
  then show "\<forall>c \<in> set s. isspace c" by (simp add: dropWhile_eq_Nil_conv)
next
  assume "\<forall>c \<in> set s. isspace c"
  then have d: "dropWhile isspace s = []" by (simp add: dropWhile_eq_Nil_conv)
  show "strip s = []" unfolding strip_def rstrip_def lstrip_def d by simp
qed

lemma rstrip_nl_decomp:
  "\<exists>e. s = rstrip_nl s @ e \<and> (\<forall>c \<in> set e. c = 10 \<or> c = 13)"
proof -
  have "rev s = takeWhile (\<lambda>c. c = 10 \<or> c = 13) (rev s) @ dropWhile (\<lambda>c. c = 10 \<or> c = 13) (rev s)"
    by simp
  then have "s = rstrip_nl s @ rev (takeWhile (\<lambda>c. c = 10 \<or> c = 13) (rev s))"
    unfolding rstrip_nl_def by (metis rev_append rev_rev_ident)
  moreover have "\<forall>c \<in> set (rev (takeWhile (\<lambda>c. c = 10 \<or> c = 13) (rev s))). c = 10 \<or> c = 13"
    using set_takeWhileD by fastforce
  ultimately show ?thesis by blast
qed

lemma strip_rstrip_nl: "strip (rstrip_nl s) = [] \<longleftrightarrow> strip s = []"
proof -
  obtain e where e: "s = rstrip_nl s @ e" "\<forall>c \<in> set e. c = 10 \<or> c = 13"
    using rstrip_nl_decomp by blast
  have "\<forall>c \<in> set e. isspace c" using e(2) by (auto simp: isspace_def)
  then have "(\<forall>c \<in> set (rstrip_nl s @ e). isspace c) \<longleftrightarrow> (\<forall>c \<in> set (rstrip_nl s). isspace c)"
    by auto
  then show ?thesis using e(1) by (simp add: strip_Nil_iff)
qed

section \<open>Properties of the mutators\<close>

lemma partial_template_lines_id:
  "(\<And>j. j < length ls \<Longrightarrow> strip (ls ! j) \<noteq> [] \<Longrightarrow> i + 1 + int j \<in> inc) \<Longrightarrow>
   partial_template_lines inc i ls = ls"
proof (induction ls arbitrary: i)
  case Nil
  show ?case by simp
next
  case (Cons line ls)
  have r: "partial_template_lines inc (i + 1) ls = ls"
  proof (rule Cons.IH)
    fix j assume "j < length ls" "strip (ls ! j) \<noteq> []"
    then show "i + 1 + 1 + int j \<in> inc" using Cons.prems [of "Suc j"] by (simp add: add.assoc)
  qed
  have h: "strip line \<noteq> [] \<Longrightarrow> i + 1 \<in> inc" using Cons.prems [of 0] by simp
  show ?case using r h by (auto simp add: Let_def strip_rstrip_nl)
qed

lemma included_lines_Union:
  "fold (\<lambda>b S. S \<union> {start_line b..end_line b}) bs A = A \<union> (\<Union>b \<in> set bs. {start_line b..end_line b})"
  by (induction bs arbitrary: A) auto

lemma parse_content_line_units:
  assumes "j < length (splitlines True txt)" and "strip (splitlines True txt ! j) \<noteq> []"
  shows "\<exists>b \<in> set (parse_content txt fp). start_line b = int j + 1 \<and> end_line b = int j + 1"
proof -
  define ls where "ls = splitlines True txt"
  define F where "F = filter (\<lambda>(i, line). strip line \<noteq> []) (enumerate 1 ls)"
  define g where "g = (\<lambda>(i :: nat, line). (int i, int i, line, detect_block_type line, Some fp))"
  define pr where
    "pr = (\<lambda>b :: TemplateBlock. (start_line b, end_line b, content b, block_type b, file_path b))"
  have eq: "map pr (parse_content txt fp) = map g F"
    using parse_loop_units [of fp ls 1 0 "[]"]
    by (simp add: parse_content_def ls_def F_def g_def pr_def)
  have "(Suc j, ls ! j) \<in> set (enumerate 1 ls)"
    using assms(1) by (simp add: ls_def in_set_enumerate_eq)
  then have "(Suc j, ls ! j) \<in> set F"
    using assms(2) by (simp add: F_def ls_def)
  then have "g (Suc j, ls ! j) \<in> set (map g F)" by simp
  then have "g (Suc j, ls ! j) \<in> set (map pr (parse_content txt fp))" by (simp only: eq)
  then obtain b where b: "b \<in> set (parse_content txt fp)" "pr b = g (Suc j, ls ! j)"
    by (auto simp only: set_map image_iff)
  from b(2) have "start_line b = int j + 1 \<and> end_line b = int j + 1"
    by (simp add: pr_def g_def)
  with b(1) show ?thesis by blast
qed

lemma partial_by_line_lines_id:
  "i + int (length ls) \<le> endl \<Longrightarrow> partial_by_line_lines smap endl i ls = ls"
  by (induction ls arbitrary: i) (simp_all add: Let_def)

text \<open>
  C7. Reducing with everything included gives the document back: the block-granularity
  reduction with all the units the parser found, and the line-cutoff reduction with the
  cutoff at the last line, both return the original text.
\<close>

theorem full_inclusion_returns_the_document:
  "create_partial_template (parse_file fp txt) (blocks (parse_file fp txt)) = txt \<and>
   create_partial_by_line t (total_lines t) = original_content t"
proof
  have "partial_template_lines (included_lines (parse_content txt fp)) 0 (splitlines True txt) =
      splitlines True txt"
  proof (rule partial_template_lines_id)
    fix j assume "j < length (splitlines True txt)" "strip (splitlines True txt ! j) \<noteq> []"
    then obtain b where "b \<in> set (parse_content txt fp)" "start_line b = int j + 1"
      "end_line b = int j + 1"
      using parse_content_line_units by blast
    then show "0 + 1 + int j \<in> included_lines (parse_content txt fp)"
      unfolding included_lines_def included_lines_Union by force
  qed
  then show "create_partial_template (parse_file fp txt) (blocks (parse_file fp txt)) = txt"
    by (simp add: create_partial_template_def parse_file_def splitlines_concat)
next
  have "partial_by_line_lines (get_structure_map (original_content t)) (total_lines t) 0
      (splitlines True (original_content t)) = splitlines True (original_content t)"
    by (rule partial_by_line_lines_id) (simp add: total_lines_eq splitlines_length)
  then show "create_partial_by_line t (total_lines t) = original_content t"
    by (simp add: create_partial_by_line_def new_lines_by_line_def splitlines_concat)
qed

section \<open>Properties of the pattern matcher\<close>

lemma rmatch_One:
  "rmatch (One a # r) s \<longleftrightarrow> (\<exists>c cs. s = c # cs \<and> cls_ok a c \<and> rmatch r cs)"
  by (cases s) auto

lemma rmatch_Opt:
  "rmatch (Opt a # r) s \<longleftrightarrow> rmatch r s \<or> (\<exists>c cs. s = c # cs \<and> cls_ok a c \<and> rmatch r cs)"
  by (cases s) auto

lemma rmatch_Star:
  "rmatch (Star a # r) s \<longleftrightarrow>
     rmatch r s \<or> (\<exists>c cs. s = c # cs \<and> cls_ok a c \<and> rmatch (Star a # r) cs)"
  by (cases s) auto

lemma rmatch_Plus:
  "rmatch (Plus a # r) s \<longleftrightarrow> (\<exists>c cs. s = c # cs \<and> cls_ok a c \<and> rmatch (Star a # r) cs)"
  by (cases s) auto

text \<open>
  Replacing the tail \<open>r\<close> of a pattern by a tail \<open>r'\<close> that matches at least as much, and
  the text \<open>s\<close> by \<open>f s\<close>, where \<open>f\<close> leaves the characters in front untouched.
\<close>

lemma rmatch_transfer:
  assumes tail: "\<And>s. rmatch r s \<Longrightarrow> rmatch r' (f s)"
      and cons: "\<And>c cs. f (c # cs) = c # f cs"
  shows "rmatch (q @ r) s \<Longrightarrow> rmatch (q @ r') (f s)"
proof (induction q arbitrary: s)
  case Nil
  then show ?case using tail by simp
next
  case (Cons x q)
  note IHq = Cons.IH
  have star: "rmatch (Star a # q @ r) s \<Longrightarrow> rmatch (Star a # q @ r') (f s)" for a s
  proof (induction s)
    case Nil
    then have "rmatch (q @ r) []" by simp
    then have "rmatch (q @ r') (f [])" by (rule IHq)
    then show ?case using rmatch_Star by blast
  next
    case (Cons c cs)
    from Cons.prems consider "rmatch (q @ r) (c # cs)"
      | "cls_ok a c" "rmatch (Star a # q @ r) cs"
      using rmatch_Star [of a "q @ r" "c # cs"] by auto
    then show ?case
    proof cases
      case 1
      then have "rmatch (q @ r') (f (c # cs))" by (rule IHq)
      then show ?thesis using rmatch_Star by blast
    next
      case 2
      then have "rmatch (Star a # q @ r') (f cs)" using Cons.IH by blast
      then show ?thesis using 2(1) cons rmatch_Star [of a "q @ r'" "f (c # cs)"] by auto
    qed
  qed
  show ?case
  proof (cases x)
    case (One a)
    then obtain c cs where s: "s = c # cs" "cls_ok a c" "rmatch (q @ r) cs"
      using Cons.prems rmatch_One [of a "q @ r" s] by auto
    then have "rmatch (q @ r') (f cs)" using Cons.IH by blast
    then show ?thesis using One s cons by simp
  next
    case (Opt a)
    then consider "rmatch (q @ r) s"
      | c cs where "s = c # cs" "cls_ok a c" "rmatch (q @ r) cs"
      using Cons.prems rmatch_Opt [of a "q @ r" s] by auto
    then show ?thesis
    proof cases
      case 1
      then have "rmatch (q @ r') (f s)" by (rule Cons.IH)
      then show ?thesis using Opt rmatch_Opt by auto
    next
      case 2
      then have "rmatch (q @ r') (f cs)" using Cons.IH by blast
      then show ?thesis using Opt 2 cons rmatch_Opt [of a "q @ r'" "f s"] by auto
    qed
  next
    case (Star a)
    then show ?thesis using Cons.prems star by simp
  next
    case (Plus a)
    then obtain c cs where s: "s = c # cs" "cls_ok a c" "rmatch (Star a # q @ r) cs"
      using Cons.prems rmatch_Plus [of a "q @ r" s] by auto
    then have "rmatch (Star a # q @ r') (f cs)" using star by blast
    then show ?thesis using Plus s cons by simp
  qed
qed

lemma rmatch_Nil: "rmatch p [] \<Longrightarrow> rmatch p t"
proof (induction p)
  case Nil
  show ?case by simp
next
  case (Cons x p)
  show ?case
  proof (cases x)
    case (One a)
    then show ?thesis using Cons.prems by simp
  next
    case (Opt a)
    then have "rmatch p t" using Cons by simp
    then show ?thesis using Opt rmatch_Opt [of a p t] by blast
  next
    case (Star a)
    then have "rmatch p t" using Cons by simp
    then show ?thesis using Star rmatch_Star [of a p t] by blast
  next
    case (Plus a)
    then show ?thesis using Cons.prems by simp
  qed
qed

lemma rmatch_append: "rmatch p s \<Longrightarrow> rmatch p (s @ t)"
proof -
  assume a: "rmatch p s"
  have "rmatch (p @ []) s \<Longrightarrow> rmatch (p @ []) ((\<lambda>s. s @ t) s)"
    by (rule rmatch_transfer [of "[]" "[]" "\<lambda>s. s @ t" p s]) simp_all
  then show ?thesis using a by simp
qed

lemma rmatch_tail_mono:
  assumes "\<And>s. rmatch r s \<Longrightarrow> rmatch r' s"
  shows "rmatch (q @ r) s \<Longrightarrow> rmatch (q @ r') s"
  using rmatch_transfer [of r r' "\<lambda>s. s" q s] assms by simp

lemma re_search_iff: "re_search p s \<longleftrightarrow> (\<exists>u v. s = u @ v \<and> rmatch p v)"
proof (induction s)
  case Nil
  show ?case by simp
next
  case (Cons c cs)
  show ?case
  proof
    assume "re_search p (c # cs)"
    then consider "rmatch p (c # cs)" | "re_search p cs" by (auto split: if_splits)
    then show "\<exists>u v. c # cs = u @ v \<and> rmatch p v"
    proof cases
      case 1
      then show ?thesis by (intro exI [of _ "[]"] exI [of _ "c # cs"]) simp
    next
      case 2
      then obtain u v where "cs = u @ v" "rmatch p v" using Cons.IH by blast
      then show ?thesis by (intro exI [of _ "c # u"] exI [of _ v]) simp
    qed
  next
    assume "\<exists>u v. c # cs = u @ v \<and> rmatch p v"
    then obtain u v where uv: "c # cs = u @ v" "rmatch p v" by blast
    show "re_search p (c # cs)"
    proof (cases u)
      case Nil
      then have "rmatch p (c # cs)" using uv by simp
      then show ?thesis by simp
    next
      case (Cons a u')
      then have "cs = u' @ v" using uv(1) by simp
      then have "re_search p cs" using Cons.IH uv(2) by blast
      then show ?thesis by simp
    qed
  qed
qed

lemma re_search_infix: "re_search p x \<Longrightarrow> re_search p (a @ x @ c)"
proof -
  assume "re_search p x"
  then obtain u v where "x = u @ v" "rmatch p v" using re_search_iff by blast
  then have "a @ x @ c = (a @ u) @ (v @ c)" "rmatch p (v @ c)"
    by (simp_all add: rmatch_append)
  then show ?thesis using re_search_iff by blast
qed

lemma rmatch_Plus_One: "rmatch [Plus a] s \<Longrightarrow> rmatch [One a] s"
  by (cases s) (auto split: if_splits)

lemma re_search_Plus_One:
  assumes "re_search (q @ [Plus a]) s"
  shows "re_search (q @ [One a]) s"
proof -
  obtain u v where uv: "s = u @ v" "rmatch (q @ [Plus a]) v"
    using assms re_search_iff [of "q @ [Plus a]" s] by blast
  have "rmatch (q @ [One a]) v"
    by (rule rmatch_tail_mono [OF rmatch_Plus_One uv(2)])
  then show ?thesis using uv(1) re_search_iff [of "q @ [One a]" s] by blast
qed

section \<open>Properties of stripping\<close>

lemma strip_infix: "\<exists>a c. s = a @ strip s @ c"
proof -
  define a where "a = takeWhile isspace s"
  define c where "c = rev (takeWhile isspace (rev (lstrip s)))"
  have 1: "a @ lstrip s = s" by (simp add: a_def lstrip_def)
  have "takeWhile isspace (rev (lstrip s)) @ dropWhile isspace (rev (lstrip s)) = rev (lstrip s)"
    by simp
  then have "rev (takeWhile isspace (rev (lstrip s)) @ dropWhile isspace (rev (lstrip s))) =
      rev (rev (lstrip s))"
    by (rule arg_cong)
  then have 2: "strip s @ c = lstrip s"
    by (simp only: rev_append rev_rev_ident strip_def rstrip_def c_def)
  have "a @ strip s @ c = s" by (simp only: 2 1)
  then show ?thesis by metis
qed

lemma strip_append_space:
  assumes "\<forall>c \<in> set e. isspace c"
  shows "strip (b @ e) = strip b"
proof (cases "\<forall>c \<in> set b. isspace c")
  case True
  then have "strip (b @ e) = []" "strip b = []" using assms by (auto simp: strip_Nil_iff)
  then show ?thesis by simp
next
  case False
  then obtain x where x: "x \<in> set b" "\<not> isspace x" by blast
  then have l: "lstrip (b @ e) = lstrip b @ e"
    by (simp add: lstrip_def dropWhile_append1)
  have "dropWhile isspace (rev e @ rev (lstrip b)) = dropWhile isspace (rev (lstrip b))"
    by (rule dropWhile_append2) (use assms in auto)
  then show ?thesis by (simp add: strip_def rstrip_def l)
qed

text \<open>A pattern found in the stripped line is found in the line without its ending.\<close>

lemma re_search_strip_body:
  assumes "re_search p (strip (b @ e))" and "\<forall>c \<in> set e. isspace c"
  shows "re_search p b"
proof -
  have "re_search p (strip b)" using assms by (simp add: strip_append_space)
  moreover obtain a c where "b = a @ strip b @ c" using strip_infix by blast
  ultimately show ?thesis using re_search_infix [of p "strip b" a c] by simp
qed

section \<open>Properties of the line-cutoff reduction\<close>

lemma get_or_False_upd:
  "get_or_False (m(a \<mapsto> b)) k = (if k = a then b else get_or_False m k)"
  by (simp add: get_or_False_def)

lemma structure_loop_get:
  "get_or_False (structure_loop i bodies m) k =
     (if i < k \<and> k \<le> i + int (length bodies) then is_control_line (bodies ! nat (k - i - 1))
      else get_or_False m k)"
proof (induction bodies arbitrary: i m)
  case Nil
  show ?case by auto
next
  case (Cons b bodies)
  define m' where "m' = m(i + 1 \<mapsto> is_control_line b)"
  have IH: "get_or_False (structure_loop (i + 1) bodies m') k =
     (if i + 1 < k \<and> k \<le> i + 1 + int (length bodies)
      then is_control_line (bodies ! nat (k - (i + 1) - 1)) else get_or_False m' k)"
    by (rule Cons.IH)
  have m': "get_or_False m' k = (if k = i + 1 then is_control_line b else get_or_False m k)"
    by (simp add: m'_def get_or_False_upd)
  have sl: "structure_loop i (b # bodies) m = structure_loop (i + 1) bodies m'"
    by (simp add: m'_def)
  show ?case
  proof (cases "k = i + 1")
    case True
    then show ?thesis unfolding sl IH m' by simp
  next
    case False
    have "nat (k - i - 1) = Suc (nat (k - (i + 1) - 1))" if "i + 1 < k"
      using that by linarith
    then show ?thesis unfolding sl IH m' using False by auto
  qed
qed

lemma partial_by_line_lines_length:
  "length (partial_by_line_lines smap endl i ls) = length ls"
  by (induction ls arbitrary: i) (simp_all add: Let_def)

lemma partial_by_line_lines_nth:
  "j < length ls \<Longrightarrow>
   partial_by_line_lines smap endl i ls ! j =
     (if i + 1 + int j \<le> endl \<or> get_or_False smap (i + 1 + int j) \<or> strip (ls ! j) = []
      then ls ! j else [10])"
proof (induction ls arbitrary: i j)
  case Nil
  then show ?case by simp
next
  case (Cons l ls)
  show ?case
  proof (cases j)
    case 0
    then show ?thesis by (simp add: Let_def strip_rstrip_nl)
  next
    case (Suc j')
    then have "j' < length ls" using Cons.prems by simp
    then show ?thesis using Cons.IH [of j' "i + 1"] Suc by (simp add: Let_def add.assoc)
  qed
qed

lemma new_lines_by_line_length:
  "length (new_lines_by_line t N) = length (splitlines True (original_content t))"
  by (simp add: new_lines_by_line_def partial_by_line_lines_length)

lemma new_lines_by_line_nth:
  assumes "i < length (splitlines True (original_content t))"
  shows "new_lines_by_line t N ! i =
     (if int i + 1 \<le> N \<or> is_control_line (splitlines False (original_content t) ! i) \<or>
         strip (splitlines True (original_content t) ! i) = []
      then splitlines True (original_content t) ! i else [10])"
proof -
  have "get_or_False (get_structure_map (original_content t)) (0 + 1 + int i) =
      is_control_line (splitlines False (original_content t) ! i)"
    using assms unfolding get_structure_map_def structure_loop_get
    by (simp add: splitlines_length get_or_False_def)
  then show ?thesis
    using assms by (simp add: new_lines_by_line_def partial_by_line_lines_nth)
qed

section \<open>Control lines of the parser and of the structure analyzer\<close>

lemma is_control_line_iff:
  "is_control_line b \<longleftrightarrow>
     re_search (open_brace @ lit ''if'' @ [One Space]) b \<or>
     re_search (open_brace @ lit ''else'' @ [Star Space, Opt (Ch 45)] @ lit ''}}'') b \<or>
     re_search (open_brace @ lit ''else'' @ [Plus Space] @ lit ''if'' @ [One Space]) b \<or>
     re_search (open_brace @ lit ''end'' @ [Star Space, Opt (Ch 45)] @ lit ''}}'') b \<or>
     re_search (open_brace @ lit ''range'' @ [One Space]) b \<or>
     re_search (open_brace @ lit ''with'' @ [One Space]) b \<or>
     re_search (open_brace @ lit ''define'' @ [One Space]) b \<or>
     re_search (open_brace @ lit ''template'' @ [One Space]) b \<or>
     re_search (open_brace @ lit ''block'' @ [One Space]) b"
  unfolding is_control_line_def CONTROL_PATTERNS_def any_pattern.simps by simp

lemma keyword_Plus_One:
  assumes "re_search (q @ lit w @ [Plus Space]) s"
  shows "re_search (q @ lit w @ [One Space]) s"
  using re_search_Plus_One [of "q @ lit w" Space s] assms by simp

lemma detect_kind_search:
  assumes "detect_block_type l \<in> {IF, RANGE, WITH, DEFINE, END, ELSE, ELSE_IF, TEMPLATE}"
  shows "re_search pat_else_if (strip l) \<or> re_search pat_else (strip l) \<or>
     re_search pat_end (strip l) \<or> re_search pat_if_start (strip l) \<or>
     re_search pat_range_start (strip l) \<or> re_search pat_with_start (strip l) \<or>
     re_search pat_define_start (strip l) \<or> re_search pat_template (strip l)"
  using assms unfolding detect_block_type_def Let_def
  by (simp split: if_splits)

lemma detect_kind_control:
  assumes k: "detect_block_type (b @ e) \<in> {IF, RANGE, WITH, DEFINE, END, ELSE, ELSE_IF, TEMPLATE}"
      and e: "\<forall>c \<in> set e. isspace c"
  shows "is_control_line b"
proof -
  have body: "re_search p b" if "re_search p (strip (b @ e))" for p
    using re_search_strip_body [OF that e] .
  have elif: "re_search (open_brace @ lit ''else'' @ [Plus Space] @ lit ''if'' @ [One Space]) b"
    if "re_search pat_else_if b"
    using keyword_Plus_One [of "open_brace @ lit ''else'' @ [Plus Space]" "''if''" b] that
    by (simp add: pat_else_if_def)
  have kw: "re_search (open_brace @ lit w @ [One Space]) b"
    if "re_search (open_brace @ lit w @ [Plus Space]) b" for w
    using keyword_Plus_One [of open_brace w b] that .
  from detect_kind_search [OF k]
  consider "re_search pat_else_if b" | "re_search pat_else b" | "re_search pat_end b"
    | "re_search pat_if_start b" | "re_search pat_range_start b" | "re_search pat_with_start b"
    | "re_search pat_define_start b" | "re_search pat_template b"
    using body by blast
  then show ?thesis
  proof cases
    case 1
    then show ?thesis using elif by (simp add: is_control_line_iff)
  next
    case 2
    then show ?thesis by (simp add: is_control_line_iff pat_else_def)
  next
    case 3
    then show ?thesis by (simp add: is_control_line_iff pat_end_def)
  next
    case 4
    then show ?thesis using kw [of "''if''"] by (simp add: is_control_line_iff pat_if_start_def)
  next
    case 5
    then show ?thesis using kw [of "''range''"] by (simp add: is_control_line_iff pat_range_start_def)
  next
    case 6
    then show ?thesis using kw [of "''with''"] by (simp add: is_control_line_iff pat_with_start_def)
  next
    case 7
    then show ?thesis using kw [of "''define''"] by (simp add: is_control_line_iff pat_define_start_def)
  next
    case 8
    then show ?thesis using kw [of "''template''"] by (simp add: is_control_line_iff pat_template_def)
  qed
qed

lemma line_body:
  assumes "i < length (splitlines True s)"
  shows "\<exists>e. splitlines True s ! i = splitlines False s ! i @ e \<and> (\<forall>c \<in> set e. isspace c)"
  using list_all2_nthD [OF splitlines_bodies assms] linebreak_isspace by blast

lemma control_kind_line:
  assumes i: "i < length (splitlines True s)"
      and k: "detect_block_type (splitlines True s ! i) \<in>
                {IF, RANGE, WITH, DEFINE, END, ELSE, ELSE_IF, TEMPLATE}"
  shows "is_control_line (splitlines False s ! i)"
proof -
  obtain e where e: "splitlines True s ! i = splitlines False s ! i @ e" "\<forall>c \<in> set e. isspace c"
    using line_body [OF i] by blast
  show ?thesis using detect_kind_control [of "splitlines False s ! i" e] k e by simp
qed

lemma blank_is_plain: "strip l = [] \<Longrightarrow> detect_block_type l = PLAIN"
  by (simp add: detect_block_type_def pats)

lemma newline_is_plain: "detect_block_type [10] = PLAIN"
  by (rule blank_is_plain) (simp add: strs)

section \<open>The line-cutoff reduction, line by line\<close>

lemma include_lines:
  "splitlines True include_text =
     [py ''a: 1'' @ [10], py ''{{ include tpl . }}'' @ [10], py ''{{ end }}'' @ [10]]"
  "splitlines False include_text = [py ''a: 1'', py ''{{ include tpl . }}'', py ''{{ end }}'']"
  by (simp_all add: include_text_def strs)

lemma include_control_lines:
  "\<not> is_control_line (py ''a: 1'')"
  "\<not> is_control_line (py ''{{ include tpl . }}'')"
  "is_control_line (py ''{{ end }}'')"
  by (simp_all add: is_control_line_def CONTROL_PATTERNS_def pats strs)

lemma include_kinds:
  "detect_block_type (py ''{{ include tpl . }}'' @ [10]) = INCLUDE"
  "detect_block_type (py ''{{ end }}'' @ [10]) = END"
  by (simp_all add: detect_block_type_def pats strs)

lemma include_structure_map:
  "get_structure_map include_text = [1 \<mapsto> False, 2 \<mapsto> False, 3 \<mapsto> True]"
  unfolding get_structure_map_def include_lines
  by (simp add: include_control_lines)

lemma include_new_lines:
  "new_lines_by_line include_template 1 = [py ''a: 1'' @ [10], [10], py ''{{ end }}'' @ [10]]"
  unfolding new_lines_by_line_def
  by (simp add: include_template_def parse_file_def include_lines include_structure_map
        get_or_False_def)
     (simp add: strs)

text \<open>
  C2, as the claim words it, fails: a cross-reference line of the \<open>include\<close> form is not
  among the patterns of \<open>TemplateStructureAnalyzer\<close>. In the document
  \<open>a: 1 / {{ include tpl . }} / {{ end }}\<close> with the cutoff 1, line 2 is classified as a
  cross-reference (\<open>INCLUDE\<close>) and lies after the cutoff, yet the reduction replaces it by
  a bare newline; the text written is \<open>a: 1\<close>, an empty line, \<open>{{ end }}\<close>.
\<close>

theorem include_line_after_cutoff_is_neutralised:
  "splitlines True (original_content include_template) ! 1 = py ''{{ include tpl . }}'' @ [10] \<and>
   detect_block_type (splitlines True (original_content include_template) ! 1) = INCLUDE \<and>
   new_lines_by_line include_template 1 ! 1 = [10] \<and>
   new_lines_by_line include_template 1 ! 1 \<noteq> splitlines True (original_content include_template) ! 1 \<and>
   create_partial_by_line include_template 1 = py ''a: 1'' @ [10] @ [10] @ py ''{{ end }}'' @ [10]"
proof -
  have ls: "splitlines True (original_content include_template) =
      [py ''a: 1'' @ [10], py ''{{ include tpl . }}'' @ [10], py ''{{ end }}'' @ [10]]"
    by (simp add: include_template_def parse_file_def include_lines)
  have ne: "[10] \<noteq> py ''{{ include tpl . }}'' @ [10]"
    by (simp add: py_def)
  show ?thesis
    unfolding create_partial_by_line_def include_new_lines ls
    using ne by (simp add: include_kinds)
qed

text \<open>
  C2, amended. For every document and every cutoff \<open>N\<close>, the reduction writes one line per
  line of the document, and the text written is their concatenation. Line \<open>i + 1\<close> is
  written verbatim when it is within the cutoff, or when it matches one of the patterns of
  the structure analyzer (\<open>if\<close>, \<open>else\<close>, \<open>else if\<close>, \<open>end\<close>, \<open>range\<close>, \<open>with\<close>,
  \<open>define\<close>, \<open>template\<close>, \<open>block\<close>), or when it is blank; every other line is replaced
  by a bare newline. In particular a line after the cutoff that the parser classifies as
  control-open, control-close, continuation or a \<open>template\<close> cross-reference is written
  verbatim, whatever \<open>N\<close> is; an \<open>include\<close> line is not among the patterns.
\<close>

theorem line_cutoff_keeps_analyzer_control_lines:
  "length (new_lines_by_line t N) = length (splitlines True (original_content t)) \<and>
   create_partial_by_line t N = concat (new_lines_by_line t N) \<and>
   (\<forall>i < length (splitlines True (original_content t)).
      new_lines_by_line t N ! i =
        (if int i + 1 \<le> N \<or> is_control_line (splitlines False (original_content t) ! i) \<or>
            strip (splitlines True (original_content t) ! i) = []
         then splitlines True (original_content t) ! i else [10])) \<and>
   (\<forall>i < length (splitlines True (original_content t)).
      detect_block_type (splitlines True (original_content t) ! i) \<in>
        {IF, RANGE, WITH, DEFINE, END, ELSE, ELSE_IF, TEMPLATE} \<longrightarrow>
      new_lines_by_line t N ! i = splitlines True (original_content t) ! i) \<and>
   (\<forall>b. is_control_line b \<longleftrightarrow> (\<exists>p \<in> set CONTROL_PATTERNS. re_search p b))"
proof (intro conjI allI impI)
  show "length (new_lines_by_line t N) = length (splitlines True (original_content t))"
    by (rule new_lines_by_line_length)
  show "create_partial_by_line t N = concat (new_lines_by_line t N)"
    by (rule create_partial_by_line_def)
next
  fix i assume "i < length (splitlines True (original_content t))"
  then show "new_lines_by_line t N ! i =
        (if int i + 1 \<le> N \<or> is_control_line (splitlines False (original_content t) ! i) \<or>
            strip (splitlines True (original_content t) ! i) = []
         then splitlines True (original_content t) ! i else [10])"
    by (rule new_lines_by_line_nth)
next
  fix i
  assume i: "i < length (splitlines True (original_content t))"
    and k: "detect_block_type (splitlines True (original_content t) ! i) \<in>
        {IF, RANGE, WITH, DEFINE, END, ELSE, ELSE_IF, TEMPLATE}"
  have "is_control_line (splitlines False (original_content t) ! i)"
    using control_kind_line [OF i k] .
  then show "new_lines_by_line t N ! i = splitlines True (original_content t) ! i"
    using new_lines_by_line_nth [OF i, of N] by simp
next
  fix b
  have "any_pattern ps b \<longleftrightarrow> (\<exists>p \<in> set ps. re_search p b)" for ps
    by (induction ps) simp_all
  then show "is_control_line b \<longleftrightarrow> (\<exists>p \<in> set CONTROL_PATTERNS. re_search p b)"
    unfolding is_control_line_def .
qed

theorem line_cutoff_keeps_analyzer_control_lines_witness:
  "(2::nat) < length (splitlines True (original_content include_template)) \<and>
   detect_block_type (splitlines True (original_content include_template) ! 2) = END \<and>
   new_lines_by_line include_template 1 ! 2 = py ''{{ end }}'' @ [10] \<and>
   new_lines_by_line include_template 1 ! 1 = [10] \<and>
   new_lines_by_line include_template 1 ! 0 = py ''a: 1'' @ [10] \<and>
   is_control_line (py ''{{ end }}'')"
proof -
  have ls: "splitlines True (original_content include_template) =
      [py ''a: 1'' @ [10], py ''{{ include tpl . }}'' @ [10], py ''{{ end }}'' @ [10]]"
    "splitlines False (original_content include_template) =
      [py ''a: 1'', py ''{{ include tpl . }}'', py ''{{ end }}'']"
    by (simp_all add: include_template_def parse_file_def include_lines)
  note th = line_cutoff_keeps_analyzer_control_lines [of include_template 1]
  note n = th [THEN conjunct2, THEN conjunct2, THEN conjunct1, rule_format]
  note k = th [THEN conjunct2, THEN conjunct2, THEN conjunct2, THEN conjunct1, rule_format]
  have c: "is_control_line (py ''{{ end }}'') \<longleftrightarrow>
      (\<exists>p \<in> set CONTROL_PATTERNS. re_search p (py ''{{ end }}''))"
    using th by blast
  have e: "is_control_line (py ''{{ end }}'')"
    unfolding c by (simp add: CONTROL_PATTERNS_def pats strs)
  have l2: "new_lines_by_line include_template 1 ! 2 = py ''{{ end }}'' @ [10]"
    using k [of 2] by (simp add: ls include_kinds)
  have l1: "new_lines_by_line include_template 1 ! 1 = [10]"
    using n [of 1] by (simp add: ls include_control_lines) (simp add: strs)
  have l0: "new_lines_by_line include_template 1 ! 0 = py ''a: 1'' @ [10]"
    using n [of 0] by (simp add: ls)
  show ?thesis using l0 l1 l2 e by (simp add: ls include_kinds)
qed

section \<open>The control skeleton under the line-cutoff reduction\<close>

lemma filter_length_nth:
  assumes "length xs = length ys" and "\<forall>i < length xs. P (xs ! i) = P (ys ! i)"
  shows "length (filter P xs) = length (filter P ys)"
  using assms
proof (induction xs ys rule: list_induct2)
  case Nil
  show ?case by simp
next
  case (Cons x xs y ys)
  have h: "P x = P y" using Cons.prems by auto
  have "\<forall>i < length xs. P (xs ! i) = P (ys ! i)" using Cons.prems by auto
  then have "length (filter P xs) = length (filter P ys)" by (rule Cons.IH)
  then show ?case using h by simp
qed

lemma kept_lines_filter:
  assumes "\<forall>i < length (splitlines True (original_content t)).
      P (splitlines True (original_content t) ! i) \<longrightarrow>
      is_control_line (splitlines False (original_content t) ! i)"
  shows "filter P (kept_lines t N) = filter P (splitlines True (original_content t))"
proof -
  let ?ls = "splitlines True (original_content t)"
  let ?K = "\<lambda>i. int i + 1 \<le> N \<or> is_control_line (splitlines False (original_content t) ! i)"
  have "filter P (kept_lines t N) =
      map (\<lambda>i. ?ls ! i) (filter (\<lambda>i. ?K i \<and> P (?ls ! i)) [0..<length ?ls])"
    by (simp add: kept_lines_def filter_map comp_def conj_commute)
  also have "filter (\<lambda>i. ?K i \<and> P (?ls ! i)) [0..<length ?ls] =
      filter (\<lambda>i. P (?ls ! i)) [0..<length ?ls]"
    using assms by (intro filter_cong) auto
  also have "map (\<lambda>i. ?ls ! i) (filter (\<lambda>i. P (?ls ! i)) [0..<length ?ls]) =
      filter P (map (\<lambda>i. ?ls ! i) [0..<length ?ls])"
    by (simp add: filter_map comp_def)
  also have "map (\<lambda>i. ?ls ! i) [0..<length ?ls] = ?ls" by (rule map_nth)
  finally show ?thesis .
qed

lemma new_lines_kind:
  assumes i: "i < length (splitlines True (original_content t))"
      and P: "\<And>l. P l \<Longrightarrow> detect_block_type l \<in> {IF, RANGE, WITH, DEFINE, END, ELSE, ELSE_IF, TEMPLATE}"
  shows "P (new_lines_by_line t N ! i) = P (splitlines True (original_content t) ! i)"
proof (cases "new_lines_by_line t N ! i = splitlines True (original_content t) ! i")
  case True
  then show ?thesis by simp
next
  case False
  then have n: "new_lines_by_line t N ! i = [10]"
    and c: "\<not> is_control_line (splitlines False (original_content t) ! i)"
    using new_lines_by_line_nth [OF i, of N] by (auto split: if_splits)
  have "\<not> P [10]" using P [of "[10]"] by (auto simp add: newline_is_plain)
  moreover have "\<not> P (splitlines True (original_content t) ! i)"
    using control_kind_line [OF i] P c by blast
  ultimately show ?thesis using n by simp
qed

lemma new_lines_count:
  assumes P: "\<And>l. P l \<Longrightarrow> detect_block_type l \<in> {IF, RANGE, WITH, DEFINE, END, ELSE, ELSE_IF, TEMPLATE}"
  shows "length (filter P (new_lines_by_line t N)) =
         length (filter P (splitlines True (original_content t)))"
proof (rule filter_length_nth)
  show "length (new_lines_by_line t N) = length (splitlines True (original_content t))"
    by (rule new_lines_by_line_length)
  show "\<forall>i < length (new_lines_by_line t N).
      P (new_lines_by_line t N ! i) = P (splitlines True (original_content t) ! i)"
    using new_lines_kind [of _ t P N] P by (simp add: new_lines_by_line_length)
qed

lemma kept_lines_count:
  assumes P: "\<And>l. P l \<Longrightarrow> detect_block_type l \<in> {IF, RANGE, WITH, DEFINE, END, ELSE, ELSE_IF, TEMPLATE}"
  shows "length (filter P (kept_lines t N)) =
         length (filter P (splitlines True (original_content t)))"
proof -
  have "\<forall>i < length (splitlines True (original_content t)).
      P (splitlines True (original_content t) ! i) \<longrightarrow>
      is_control_line (splitlines False (original_content t) ! i)"
    using control_kind_line P by blast
  then show ?thesis by (simp add: kept_lines_filter)
qed

section \<open>A document whose line 20 is an unmatched control-close\<close>

lemma replicate_num: "replicate (numeral k) x = x # replicate (pred_numeral k) x"
  by (simp add: numeral_eq_Suc)

lemma unmatched_end_lines:
  "splitlines True unmatched_end_text =
     replicate 19 (py ''k: v'' @ [10]) @ [py ''{{ end }}'' @ [10]]"
  "splitlines False unmatched_end_text = replicate 19 (py ''k: v'') @ [py ''{{ end }}'']"
  by (simp_all add: unmatched_end_text_def replicate_num strs)

lemma unmatched_end_control:
  "\<not> is_control_line (py ''k: v'')"
  "is_control_line (py ''{{ end }}'')"
  by (simp_all add: is_control_line_def CONTROL_PATTERNS_def pats strs)

lemma unmatched_end_kinds:
  "detect_block_type (py ''k: v'' @ [10]) = PLAIN"
  "detect_block_type (py ''{{ end }}'' @ [10]) = END"
  by (simp_all add: detect_block_type_def pats strs)

lemma unmatched_end_new_lines:
  "new_lines_by_line unmatched_end_template 15 =
     replicate 15 (py ''k: v'' @ [10]) @ replicate 4 [10] @ [py ''{{ end }}'' @ [10]]"
  unfolding new_lines_by_line_def get_structure_map_def
  by (simp add: unmatched_end_template_def parse_file_def unmatched_end_lines replicate_num
        unmatched_end_control get_or_False_def)
     (simp add: strs)

text \<open>
  C5. For every document and every cutoff \<open>N\<close>, the lines that the line-cutoff reduction
  writes (the reduced text is their concatenation) contain as many control-open lines and
  as many control-close lines as the original document restricted to the lines \<open>1..N\<close>
  plus all the control lines beyond \<open>N\<close>; these are also the counts of the whole original
  document, so the control skeleton is never broken. A control-close line is written
  verbatim whatever the cutoff is: a control-close on line 20 is still there at cutoff 15.
\<close>

theorem line_reduction_keeps_control_counts:
  "count_open (new_lines_by_line t N) = count_open (kept_lines t N) \<and>
   count_close (new_lines_by_line t N) = count_close (kept_lines t N) \<and>
   count_open (kept_lines t N) = count_open (splitlines True (original_content t)) \<and>
   count_close (kept_lines t N) = count_close (splitlines True (original_content t)) \<and>
   create_partial_by_line t N = concat (new_lines_by_line t N) \<and>
   (\<forall>i < length (splitlines True (original_content t)).
      is_close (detect_block_type (splitlines True (original_content t) ! i)) \<or>
      is_open (detect_block_type (splitlines True (original_content t) ! i)) \<longrightarrow>
      new_lines_by_line t N ! i = splitlines True (original_content t) ! i)"
proof -
  have o: "is_open (detect_block_type l) \<Longrightarrow>
      detect_block_type l \<in> {IF, RANGE, WITH, DEFINE, END, ELSE, ELSE_IF, TEMPLATE}" for l
    by (auto simp add: is_open_def)
  have c: "is_close (detect_block_type l) \<Longrightarrow>
      detect_block_type l \<in> {IF, RANGE, WITH, DEFINE, END, ELSE, ELSE_IF, TEMPLATE}" for l
    by (simp add: is_close_def)
  have ko: "count_open (kept_lines t N) = count_open (splitlines True (original_content t))"
    unfolding count_open_def using o by (rule kept_lines_count)
  have kc: "count_close (kept_lines t N) = count_close (splitlines True (original_content t))"
    unfolding count_close_def using c by (rule kept_lines_count)
  have no: "count_open (new_lines_by_line t N) = count_open (splitlines True (original_content t))"
    unfolding count_open_def using o by (rule new_lines_count)
  have nc: "count_close (new_lines_by_line t N) = count_close (splitlines True (original_content t))"
    unfolding count_close_def using c by (rule new_lines_count)
  have v: "new_lines_by_line t N ! i = splitlines True (original_content t) ! i"
    if i: "i < length (splitlines True (original_content t))"
      and k: "is_close (detect_block_type (splitlines True (original_content t) ! i)) \<or>
              is_open (detect_block_type (splitlines True (original_content t) ! i))" for i
  proof -
    have "detect_block_type (splitlines True (original_content t) ! i) \<in>
        {IF, RANGE, WITH, DEFINE, END, ELSE, ELSE_IF, TEMPLATE}"
      using k o c by blast
    then have "is_control_line (splitlines False (original_content t) ! i)"
      using control_kind_line [OF i] by blast
    then show ?thesis using new_lines_by_line_nth [OF i, of N] by simp
  qed
  show ?thesis
    using ko kc no nc v by (simp add: create_partial_by_line_def)
qed

theorem line_reduction_keeps_control_counts_witness:
  "(19::nat) < length (splitlines True (original_content unmatched_end_template)) \<and>
   splitlines True (original_content unmatched_end_template) ! 19 = py ''{{ end }}'' @ [10] \<and>
   is_close (detect_block_type (splitlines True (original_content unmatched_end_template) ! 19)) \<and>
   new_lines_by_line unmatched_end_template 15 ! 19 = py ''{{ end }}'' @ [10] \<and>
   count_close (new_lines_by_line unmatched_end_template 15) = 1 \<and>
   count_open (new_lines_by_line unmatched_end_template 15) = 0 \<and>
   create_partial_by_line unmatched_end_template 15 =
     concat (replicate 15 (py ''k: v'' @ [10])) @ replicate 4 10 @ py ''{{ end }}'' @ [10]"
proof -
  have ls: "splitlines True (original_content unmatched_end_template) =
      replicate 19 (py ''k: v'' @ [10]) @ [py ''{{ end }}'' @ [10]]"
    by (simp add: unmatched_end_template_def parse_file_def unmatched_end_lines)
  have len: "(19::nat) < length (splitlines True (original_content unmatched_end_template))"
    unfolding ls by simp
  have l20: "splitlines True (original_content unmatched_end_template) ! 19 = py ''{{ end }}'' @ [10]"
    unfolding ls by (simp add: nth_append)
  have cl: "is_close (detect_block_type (splitlines True (original_content unmatched_end_template) ! 19))"
    unfolding l20 by (simp add: unmatched_end_kinds is_close_def)
  note th = line_reduction_keeps_control_counts [of unmatched_end_template 15]
  have v: "new_lines_by_line unmatched_end_template 15 ! 19 = py ''{{ end }}'' @ [10]"
    using th [THEN conjunct2, THEN conjunct2, THEN conjunct2, THEN conjunct2, THEN conjunct2,
        rule_format, of 19] len cl l20 by simp
  have cc: "count_close (new_lines_by_line unmatched_end_template 15) = 1"
    using th unfolding ls by (simp add: count_close_def unmatched_end_kinds is_close_def)
  have co: "count_open (new_lines_by_line unmatched_end_template 15) = 0"
    using th unfolding ls by (simp add: count_open_def unmatched_end_kinds is_open_def)
  have out: "create_partial_by_line unmatched_end_template 15 =
     concat (replicate 15 (py ''k: v'' @ [10])) @ replicate 4 10 @ py ''{{ end }}'' @ [10]"
    using th unfolding unmatched_end_new_lines by simp
  show ?thesis using len l20 cl v cc co out by simp
qed

end
